theory Spec2Isabelle
  imports Main "HOL-Library.Word" "HOL-Library.AList" "HOL-Library.Multiset"
begin

section \<open>Revisions and stored rows\<close>

text \<open>
  The postgres datastore keeps every relation tuple as a row of the table \<open>tuple\<close>,
  stamped with the transaction that created it and the transaction that deleted it.
  Transaction ids are Go \<open>uint64\<close> values.
\<close>

type_synonym txn = "64 word"

text \<open>
  Modelled from the spec: \<open>datastore.Revision\<close>, \<open>transactionFromRevision\<close> and
  \<open>revisionFromTransaction\<close> are declared outside the files at hand. The spec describes a
  revision as an opaque identifier backed by the unsigned 64-bit transaction counter, with
  a total and bijective conversion; a revision is represented by its transaction id, and it
  is that number which reaches the SQL engine when a revision is passed as an argument.
\<close>

type_synonym Revision = txn

definition transactionFromRevision :: "Revision \<Rightarrow> txn" where
  "transactionFromRevision r = r"

definition revisionFromTransaction :: "txn \<Rightarrow> Revision" where
  "revisionFromTransaction t = t"

record row =
  namespace :: string
  object_id :: string
  relation :: string
  userset_namespace :: string
  userset_object_id :: string
  userset_relation :: string
  created_txn :: txn
  deleted_txn :: txn

section \<open>The query builder (squirrel expressions over the tuple table)\<close>

datatype column =
    colNamespace | colObjectID | colRelation
  | colUsersetNamespace | colUsersetObjectID | colUsersetRelation
  | colCreatedTxn | colDeletedTxn

datatype sqlArg = ArgString string | ArgTxn txn

text \<open>
  The squirrel predicates the datastore uses: \<open>sq.Eq\<close>, \<open>sq.Gt\<close>, \<open>sq.LtOrEq\<close> with a
  single column, and the connectives \<open>sq.Or\<close> and \<open>sq.And\<close>.
\<close>

datatype sqlExpr =
    Eq column sqlArg
  | Gt column sqlArg
  | LtOrEq column sqlArg
  | Or "sqlExpr list"
  | And "sqlExpr list"

text \<open>A select builder over a fixed table: the \<open>Where\<close> parts, all of which must hold.\<close>

type_synonym SelectBuilder = "sqlExpr list"

definition Where :: "sqlExpr \<Rightarrow> SelectBuilder \<Rightarrow> SelectBuilder" where
  "Where e q = q @ [e]"

definition colValue :: "row \<Rightarrow> column \<Rightarrow> sqlArg" where
  "colValue r c =
     (case c of
        colNamespace \<Rightarrow> ArgString (namespace r)
      | colObjectID \<Rightarrow> ArgString (object_id r)
      | colRelation \<Rightarrow> ArgString (relation r)
      | colUsersetNamespace \<Rightarrow> ArgString (userset_namespace r)
      | colUsersetObjectID \<Rightarrow> ArgString (userset_object_id r)
      | colUsersetRelation \<Rightarrow> ArgString (userset_relation r)
      | colCreatedTxn \<Rightarrow> ArgTxn (created_txn r)
      | colDeletedTxn \<Rightarrow> ArgTxn (deleted_txn r))"

text \<open>
  Ordering comparisons are only ever issued on the two transaction columns; they compare
  the unsigned transaction ids. An ordering comparison between a text and a number
  selects no row.
\<close>

definition argGt :: "sqlArg \<Rightarrow> sqlArg \<Rightarrow> bool" where
  "argGt a b = (case (a, b) of (ArgTxn x, ArgTxn y) \<Rightarrow> y < x | _ \<Rightarrow> False)"

definition argLtOrEq :: "sqlArg \<Rightarrow> sqlArg \<Rightarrow> bool" where
  "argLtOrEq a b = (case (a, b) of (ArgTxn x, ArgTxn y) \<Rightarrow> x \<le> y | _ \<Rightarrow> False)"

fun evalExpr :: "sqlExpr \<Rightarrow> row \<Rightarrow> bool" where
  "evalExpr (Eq c v) r = (colValue r c = v)"
| "evalExpr (Gt c v) r = argGt (colValue r c) v"
| "evalExpr (LtOrEq c v) r = argLtOrEq (colValue r c) v"
| "evalExpr (Or es) r = list_ex (\<lambda>e. evalExpr e r) es"
| "evalExpr (And es) r = list_all (\<lambda>e. evalExpr e r) es"

definition selects :: "SelectBuilder \<Rightarrow> row \<Rightarrow> bool" where
  "selects q r = list_all (\<lambda>e. evalExpr e r) q"

definition runQuery :: "SelectBuilder \<Rightarrow> row list \<Rightarrow> row list" where
  "runQuery q table = filter (selects q) table"

section \<open>Forward and reverse tuple queries\<close>

record TupleQueryResourceFilter =
  ResourceType :: string
  OptionalResourceID :: string
  OptionalResourceRelation :: string

datatype attributeKey = ObjNamespaceNameKey | ObjIDKey | ObjRelationNameKey

record pgDatastore =
  splitAtEstimatedQuerySize :: nat
  watchBufferLength :: nat

record TupleQuery =
  InitialQuery :: SelectBuilder
  InitialQuerySizeEstimate :: int
  Revision :: Revision
  TracerAttributes :: "(attributeKey \<times> string) list"
  DebugName :: string
  SplitAtEstimatedQuerySize :: nat

text \<open>\<open>queryTuples\<close> selects the six tuple columns from the tuple table, with no condition.\<close>

definition queryTuples :: SelectBuilder where
  "queryTuples = []"

text \<open>
  Modelled from the spec: \<open>filterToLivingObjects\<close> is defined outside the files at hand,
  and so is the constant \<open>liveDeletedTxnID\<close>, which is taken as a parameter throughout.
  The spec gives the condition of a row alive at a revision: created at or before it, and
  either not deleted (the live sentinel) or deleted after it.
\<close>

definition filterToLivingObjects :: "txn \<Rightarrow> SelectBuilder \<Rightarrow> Revision \<Rightarrow> SelectBuilder" where
  "filterToLivingObjects liveDeletedTxnID original revision =
     Where (Or [Eq colDeletedTxn (ArgTxn liveDeletedTxnID), Gt colDeletedTxn (ArgTxn revision)])
       (Where (LtOrEq colCreatedTxn (ArgTxn (transactionFromRevision revision))) original)"

definition QueryTuples ::
  "txn \<Rightarrow> pgDatastore \<Rightarrow> TupleQueryResourceFilter \<Rightarrow> Revision \<Rightarrow> TupleQuery" where
  "QueryTuples liveDeletedTxnID pgd resourceFilter revision =
     (let initialQuery0 =
            Where (Eq colNamespace (ArgString (ResourceType resourceFilter)))
              (filterToLivingObjects liveDeletedTxnID queryTuples revision);
          tracerAttributes0 = [(ObjNamespaceNameKey, ResourceType resourceFilter)];
          (initialQuery1, tracerAttributes1) =
            (if OptionalResourceID resourceFilter \<noteq> ''''
             then (Where (Eq colObjectID (ArgString (OptionalResourceID resourceFilter))) initialQuery0,
                   tracerAttributes0 @ [(ObjIDKey, OptionalResourceID resourceFilter)])
             else (initialQuery0, tracerAttributes0));
          (initialQuery2, tracerAttributes2) =
            (if OptionalResourceRelation resourceFilter \<noteq> ''''
             then (Where (Eq colRelation (ArgString (OptionalResourceRelation resourceFilter))) initialQuery1,
                   tracerAttributes1 @ [(ObjRelationNameKey, OptionalResourceRelation resourceFilter)])
             else (initialQuery1, tracerAttributes1));
          baseSize = int (length (ResourceType resourceFilter)) + int (length (OptionalResourceID resourceFilter))
                     + int (length (OptionalResourceRelation resourceFilter))
      in \<lparr> InitialQuery = initialQuery2,
           InitialQuerySizeEstimate = baseSize,
           Revision = revision,
           TracerAttributes = tracerAttributes2,
           DebugName = ''QueryTuples'',
           SplitAtEstimatedQuerySize = splitAtEstimatedQuerySize pgd \<rparr>)"

definition reverseQueryBase :: "txn \<Rightarrow> pgDatastore \<Rightarrow> Revision \<Rightarrow> TupleQuery" where
  "reverseQueryBase liveDeletedTxnID pgd revision =
     \<lparr> InitialQuery =
         Where (Or [Eq colDeletedTxn (ArgTxn liveDeletedTxnID), Gt colDeletedTxn (ArgTxn revision)])
           (Where (LtOrEq colCreatedTxn (ArgTxn (transactionFromRevision revision))) queryTuples),
       InitialQuerySizeEstimate = 0,
       Revision = revision,
       TracerAttributes = [],
       DebugName = ''ReverseQueryTuples'',
       SplitAtEstimatedQuerySize = splitAtEstimatedQuerySize pgd \<rparr>"

text \<open>The spec's own wording of a row alive at a revision, for comparison with the queries.\<close>

definition alive_at :: "txn \<Rightarrow> Revision \<Rightarrow> row \<Rightarrow> bool" where
  "alive_at T_live R r =
     (created_txn r \<le> R \<and> (deleted_txn r = T_live \<or> R < deleted_txn r))"

section \<open>Properties of the queries\<close>

lemma selects_Where: "selects (Where e q) r = (selects q r \<and> evalExpr e r)"
  by (simp add: selects_def Where_def)

lemma selects_append: "selects (q @ q') r = (selects q r \<and> selects q' r)"
  by (simp add: selects_def)

lemma selects_Nil: "selects [] r"
  by (simp add: selects_def)

lemma selects_Cons: "selects (e # q) r = (evalExpr e r \<and> selects q r)"
  by (simp add: selects_def)

lemma selects_queryTuples: "selects queryTuples r"
  by (simp add: selects_def queryTuples_def)

lemma selects_living:
  "selects (filterToLivingObjects live q R) r = (selects q r \<and> alive_at live R r)"
  by (auto simp: filterToLivingObjects_def selects_Where alive_at_def colValue_def
      argGt_def argLtOrEq_def transactionFromRevision_def)

text \<open>
  C6. For every revision \<open>R\<close>, the query of \<open>reverseQueryBase\<close> selects exactly the rows
  alive at \<open>R\<close>: those with \<open>created_txn \<le> R\<close> whose \<open>deleted_txn\<close> is the live sentinel or
  is greater than \<open>R\<close>; run on a table it returns those rows and no others.
\<close>

theorem reverseQueryBase_alive:
  "selects (InitialQuery (reverseQueryBase live pgd R)) r
     = (created_txn r \<le> R \<and> (deleted_txn r = live \<or> R < deleted_txn r))
   \<and> runQuery (InitialQuery (reverseQueryBase live pgd R)) table = filter (alive_at live R) table"
proof -
  have sel: "selects (InitialQuery (reverseQueryBase live pgd R)) = alive_at live R"
    by (rule ext)
      (auto simp: reverseQueryBase_def selects_Where selects_queryTuples alive_at_def
        colValue_def argGt_def argLtOrEq_def transactionFromRevision_def)
  show ?thesis
    unfolding runQuery_def sel by (simp add: alive_at_def)
qed

theorem reverseQueryBase_alive_witness:
  "selects (InitialQuery (reverseQueryBase 0 \<lparr>splitAtEstimatedQuerySize = 8, watchBufferLength = 1\<rparr> 5))
     \<lparr>namespace = ''document'', object_id = ''doc1'', relation = ''viewer'',
      userset_namespace = ''user'', userset_object_id = ''alice'', userset_relation = ''...'',
      created_txn = 3, deleted_txn = 7\<rparr>
   \<and> \<not> selects (InitialQuery (reverseQueryBase 0 \<lparr>splitAtEstimatedQuerySize = 8, watchBufferLength = 1\<rparr> 7))
     \<lparr>namespace = ''document'', object_id = ''doc1'', relation = ''viewer'',
      userset_namespace = ''user'', userset_object_id = ''alice'', userset_relation = ''...'',
      created_txn = 3, deleted_txn = 7\<rparr>"
  using reverseQueryBase_alive [of 0 "\<lparr>splitAtEstimatedQuerySize = 8, watchBufferLength = 1\<rparr>" 5
      "\<lparr>namespace = ''document'', object_id = ''doc1'', relation = ''viewer'',
      userset_namespace = ''user'', userset_object_id = ''alice'', userset_relation = ''...'',
      created_txn = 3, deleted_txn = 7\<rparr>"]
    reverseQueryBase_alive [of 0 "\<lparr>splitAtEstimatedQuerySize = 8, watchBufferLength = 1\<rparr>" 7
      "\<lparr>namespace = ''document'', object_id = ''doc1'', relation = ''viewer'',
      userset_namespace = ''user'', userset_object_id = ''alice'', userset_relation = ''...'',
      created_txn = 3, deleted_txn = 7\<rparr>"]
  by simp

lemma InitialQuery_QueryTuples:
  "InitialQuery (QueryTuples live pgd f R) =
     filterToLivingObjects live queryTuples R
     @ [Eq colNamespace (ArgString (ResourceType f))]
     @ (if OptionalResourceID f \<noteq> '''' then [Eq colObjectID (ArgString (OptionalResourceID f))] else [])
     @ (if OptionalResourceRelation f \<noteq> ''''
        then [Eq colRelation (ArgString (OptionalResourceRelation f))] else [])"
  by (simp add: QueryTuples_def Let_def Where_def)

text \<open>
  C7. For every filter, the query of \<open>QueryTuples\<close> consists of the living-rows condition,
  then the equality of the resource namespace with the filter's \<open>ResourceType\<close>, then an
  equality on the resource id exactly when \<open>OptionalResourceID\<close> is non-empty, then an
  equality on the resource relation exactly when \<open>OptionalResourceRelation\<close> is non-empty.
  A row is selected iff it is alive, its namespace is the \<open>ResourceType\<close>, and each
  optional field is empty (a wildcard, matching every value) or equal to the row's value.
\<close>

theorem QueryTuples_constraints:
  "InitialQuery (QueryTuples live pgd f R) =
     filterToLivingObjects live queryTuples R
     @ [Eq colNamespace (ArgString (ResourceType f))]
     @ (if OptionalResourceID f \<noteq> '''' then [Eq colObjectID (ArgString (OptionalResourceID f))] else [])
     @ (if OptionalResourceRelation f \<noteq> ''''
        then [Eq colRelation (ArgString (OptionalResourceRelation f))] else [])
   \<and> selects (InitialQuery (QueryTuples live pgd f R)) r =
       (alive_at live R r
        \<and> namespace r = ResourceType f
        \<and> (OptionalResourceID f = '''' \<or> object_id r = OptionalResourceID f)
        \<and> (OptionalResourceRelation f = '''' \<or> relation r = OptionalResourceRelation f))"
proof -
  have "selects (InitialQuery (QueryTuples live pgd f R)) r =
       (alive_at live R r
        \<and> namespace r = ResourceType f
        \<and> (OptionalResourceID f = '''' \<or> object_id r = OptionalResourceID f)
        \<and> (OptionalResourceRelation f = '''' \<or> relation r = OptionalResourceRelation f))"
    unfolding InitialQuery_QueryTuples
    by (auto simp: selects_append selects_Cons selects_Nil selects_living selects_queryTuples
        colValue_def)
  with InitialQuery_QueryTuples show ?thesis by blast
qed

theorem QueryTuples_constraints_witness:
  "selects (InitialQuery (QueryTuples 0 \<lparr>splitAtEstimatedQuerySize = 8, watchBufferLength = 1\<rparr>
       \<lparr>ResourceType = ''document'', OptionalResourceID = '''', OptionalResourceRelation = ''viewer''\<rparr> 5))
     \<lparr>namespace = ''document'', object_id = ''doc1'', relation = ''viewer'',
      userset_namespace = ''user'', userset_object_id = ''alice'', userset_relation = ''...'',
      created_txn = 3, deleted_txn = 0\<rparr>
   \<and> \<not> selects (InitialQuery (QueryTuples 0 \<lparr>splitAtEstimatedQuerySize = 8, watchBufferLength = 1\<rparr>
       \<lparr>ResourceType = ''document'', OptionalResourceID = ''doc2'', OptionalResourceRelation = ''''\<rparr> 5))
     \<lparr>namespace = ''document'', object_id = ''doc1'', relation = ''viewer'',
      userset_namespace = ''user'', userset_object_id = ''alice'', userset_relation = ''...'',
      created_txn = 3, deleted_txn = 0\<rparr>"
  using QueryTuples_constraints [of 0 "\<lparr>splitAtEstimatedQuerySize = 8, watchBufferLength = 1\<rparr>"
      "\<lparr>ResourceType = ''document'', OptionalResourceID = '''', OptionalResourceRelation = ''viewer''\<rparr>" 5
      "\<lparr>namespace = ''document'', object_id = ''doc1'', relation = ''viewer'',
      userset_namespace = ''user'', userset_object_id = ''alice'', userset_relation = ''...'',
      created_txn = 3, deleted_txn = 0\<rparr>", THEN conjunct2]
    QueryTuples_constraints [of 0 "\<lparr>splitAtEstimatedQuerySize = 8, watchBufferLength = 1\<rparr>"
      "\<lparr>ResourceType = ''document'', OptionalResourceID = ''doc2'', OptionalResourceRelation = ''''\<rparr>" 5
      "\<lparr>namespace = ''document'', object_id = ''doc1'', relation = ''viewer'',
      userset_namespace = ''user'', userset_object_id = ''alice'', userset_relation = ''...'',
      created_txn = 3, deleted_txn = 0\<rparr>", THEN conjunct2]
  by (simp add: alive_at_def)

text \<open>
  C8. For every filter, the initial size estimate of \<open>QueryTuples\<close> is the sum of the
  lengths of the resource type, the optional resource id and the optional resource
  relation; it is a function of these three lengths alone: neither the datastore, nor the
  revision, nor the content of the strings changes it.
\<close>

theorem QueryTuples_size_estimate:
  "InitialQuerySizeEstimate (QueryTuples live pgd f R) =
     int (length (ResourceType f)) + int (length (OptionalResourceID f))
       + int (length (OptionalResourceRelation f))
   \<and> (length (ResourceType f') = length (ResourceType f)
        \<and> length (OptionalResourceID f') = length (OptionalResourceID f)
        \<and> length (OptionalResourceRelation f') = length (OptionalResourceRelation f)
      \<longrightarrow> InitialQuerySizeEstimate (QueryTuples live' pgd' f' R')
            = InitialQuerySizeEstimate (QueryTuples live pgd f R))"
  by (simp add: QueryTuples_def Let_def split: prod.splits)

theorem QueryTuples_size_estimate_witness:
  "InitialQuerySizeEstimate (QueryTuples 0 \<lparr>splitAtEstimatedQuerySize = 8, watchBufferLength = 1\<rparr>
       \<lparr>ResourceType = ''document'', OptionalResourceID = ''doc1'', OptionalResourceRelation = ''''\<rparr> 5) = 12
   \<and> InitialQuerySizeEstimate (QueryTuples 0 \<lparr>splitAtEstimatedQuerySize = 8, watchBufferLength = 1\<rparr>
       \<lparr>ResourceType = ''document'', OptionalResourceID = ''doc1'', OptionalResourceRelation = ''''\<rparr> 5)
     = InitialQuerySizeEstimate (QueryTuples 9 \<lparr>splitAtEstimatedQuerySize = 20, watchBufferLength = 3\<rparr>
       \<lparr>ResourceType = ''resource'', OptionalResourceID = ''abcd'', OptionalResourceRelation = ''''\<rparr> 6)"
  using QueryTuples_size_estimate [of 0 "\<lparr>splitAtEstimatedQuerySize = 8, watchBufferLength = 1\<rparr>"
      "\<lparr>ResourceType = ''document'', OptionalResourceID = ''doc1'', OptionalResourceRelation = ''''\<rparr>" 5
      "\<lparr>ResourceType = ''resource'', OptionalResourceID = ''abcd'', OptionalResourceRelation = ''''\<rparr>"
      9 "\<lparr>splitAtEstimatedQuerySize = 20, watchBufferLength = 3\<rparr>" 6]
  by simp

section \<open>Relation tuples and the change records of the watch engine\<close>

record ObjectAndRelation =
  Namespace :: string
  ObjectId :: string
  Relation :: string

text \<open>
  A relation tuple as the watch engine builds it from a row: the resource
  (\<open>tpl.ObjectAndRelation\<close>) and the subject userset (\<open>tpl.User.Userset\<close>).
\<close>

record RelationTuple =
  TupleObjectAndRelation :: ObjectAndRelation
  TupleUserset :: ObjectAndRelation

datatype Operation = UNKNOWN | CREATE | TOUCH | DELETE

record RelationTupleUpdate =
  UpdateOperation :: Operation
  UpdateTuple :: RelationTuple

record RevisionChanges =
  Revision :: Revision
  Changes :: "RelationTupleUpdate list"

text \<open>
  Modelled from the spec: \<open>tuple.String\<close> belongs to a package outside the files at hand.
  The spec gives the canonical tuple string used as map key by the watch engine,
  \<open>ns:id#rel@sns:sid#srel\<close>, and has the change record map each canonical string to the
  tuple: the string stands for one tuple. \<open>canonical\<close> below states this of the tuples
  of a list of events. The proofs never look inside \<open>tuple_String\<close>.
\<close>

definition StringONR :: "ObjectAndRelation \<Rightarrow> string" where
  "StringONR onr = Namespace onr @ '':'' @ ObjectId onr @ ''#'' @ Relation onr"

definition tuple_String :: "RelationTuple \<Rightarrow> string" where
  "tuple_String tpl =
     StringONR (TupleObjectAndRelation tpl) @ ''@'' @ StringONR (TupleUserset tpl)"

text \<open>
  A Go map is an association list with distinct keys: a new key goes to the end, an
  existing key keeps its place, \<open>delete\<close> removes the entry. Go leaves the iteration order
  of a map unspecified; the model iterates in list order, and no property below depends
  on the order of the changes inside one \<open>RevisionChanges\<close>.
\<close>

record changeRecord =
  tupleTouches :: "(string \<times> RelationTuple) list"
  tupleDeletes :: "(string \<times> RelationTuple) list"

type_synonym stagedChanges = "(txn \<times> changeRecord) list"

text \<open>
  \<open>addChange\<close> mutates the record of the revision in place (creating it first when the
  revision has none); the model returns the updated map. An operation other than
  \<open>TOUCH\<close> and \<open>DELETE\<close> ends the process through \<open>log.Fatal\<close>: the result is \<open>None\<close>.
\<close>

definition addChange ::
  "stagedChanges \<Rightarrow> txn \<Rightarrow> RelationTuple \<Rightarrow> Operation \<Rightarrow> stagedChanges option" where
  "addChange changes revision tpl op =
     (let revisionChanges =
            (case map_of changes revision of
               Some rc \<Rightarrow> rc
             | None \<Rightarrow> \<lparr>tupleTouches = [], tupleDeletes = []\<rparr>);
          tplKey = tuple_String tpl
      in case op of
           TOUCH \<Rightarrow>
             Some (AList.update revision
                    (revisionChanges
                       \<lparr>tupleTouches := AList.update tplKey tpl (tupleTouches revisionChanges),
                        tupleDeletes := AList.delete tplKey (tupleDeletes revisionChanges)\<rparr>)
                    changes)
         | DELETE \<Rightarrow>
             (let alreadyTouched = (map_of (tupleTouches revisionChanges) tplKey \<noteq> None)
              in if \<not> alreadyTouched
                 then Some (AList.update revision
                        (revisionChanges
                           \<lparr>tupleDeletes := AList.update tplKey tpl (tupleDeletes revisionChanges)\<rparr>)
                        changes)
                 else Some (AList.update revision revisionChanges changes))
         | _ \<Rightarrow> None)"

text \<open>A sequence of calls of \<open>addChange\<close>, each given as (revision, tuple, operation).\<close>

type_synonym event = "txn \<times> RelationTuple \<times> Operation"

fun addChanges :: "event list \<Rightarrow> stagedChanges \<Rightarrow> stagedChanges option" where
  "addChanges [] changes = Some changes"
| "addChanges ((revision, tpl, op) # es) changes =
     (case addChange changes revision tpl op of
        None \<Rightarrow> None
      | Some changes' \<Rightarrow> addChanges es changes')"

section \<open>Loading the changes of one poll\<close>

definition tupleOfRow :: "row \<Rightarrow> RelationTuple" where
  "tupleOfRow r =
     \<lparr>TupleObjectAndRelation =
        \<lparr>Namespace = namespace r, ObjectId = object_id r, Relation = relation r\<rparr>,
      TupleUserset =
        \<lparr>Namespace = userset_namespace r, ObjectId = userset_object_id r,
         Relation = userset_relation r\<rparr>\<rparr>"

text \<open>The body of the loop over the fetched rows, after a successful \<open>Scan\<close>.\<close>

definition stageRow :: "txn \<Rightarrow> txn \<Rightarrow> row \<Rightarrow> stagedChanges \<Rightarrow> stagedChanges option" where
  "stageRow afterRevision newRevision r changes =
     (let tpl = tupleOfRow r; createdTxn = created_txn r; deletedTxn = deleted_txn r
      in case (if afterRevision < createdTxn \<and> createdTxn \<le> newRevision
               then addChange changes createdTxn tpl TOUCH else Some changes) of
           None \<Rightarrow> None
         | Some changes1 \<Rightarrow>
             (if afterRevision < deletedTxn \<and> deletedTxn \<le> newRevision
              then addChange changes1 deletedTxn tpl DELETE else Some changes1))"

text \<open>The calls of \<open>addChange\<close> that the loop body makes for one row, in order.\<close>

definition rowEvents :: "txn \<Rightarrow> txn \<Rightarrow> row \<Rightarrow> event list" where
  "rowEvents afterRevision newRevision r =
     (if afterRevision < created_txn r \<and> created_txn r \<le> newRevision
      then [(created_txn r, tupleOfRow r, TOUCH)] else [])
     @ (if afterRevision < deleted_txn r \<and> deleted_txn r \<le> newRevision
        then [(deleted_txn r, tupleOfRow r, DELETE)] else [])"

text \<open>The condition of the query that fetches the changed rows.\<close>

definition queryChanged :: SelectBuilder where
  "queryChanged = []"

definition changedQuery :: "txn \<Rightarrow> txn \<Rightarrow> SelectBuilder" where
  "changedQuery afterRevision newRevision =
     Where (Or [And [Gt colCreatedTxn (ArgTxn afterRevision),
                     LtOrEq colCreatedTxn (ArgTxn newRevision)],
                And [Gt colDeletedTxn (ArgTxn afterRevision),
                     LtOrEq colDeletedTxn (ArgTxn newRevision)]])
       queryChanged"

datatype code = NotFound | InvalidArgument

datatype error =
    ContextCanceled
  | WatchCanceledErr
  | WatchDisconnectedErr
  | UnknownNamespaceError string
  | ErrorWithContext string
  | ErrReadOnly
  | ErrServiceReadOnly
  | StatusError code string
  | OtherError string

text \<open>
  What the database answers during one poll: the result of \<open>loadRevision\<close> (a value and
  an error, as Go returns them), whether \<open>Query\<close> fails, the rows of the tuple table,
  whether the \<open>Scan\<close> of a row fails, and the final \<open>rows.Err()\<close>.
\<close>

record database =
  loadRevisionResult :: "txn \<times> error option"
  queryError :: "error option"
  tupleTable :: "row list"
  scanError :: "row \<Rightarrow> error option"
  rowsError :: "error option"

text \<open>
  The loop \<open>for rows.Next()\<close>: a failing \<open>Scan\<close> returns its error at once; \<open>None\<close> is the
  end of the process inside \<open>addChange\<close>.
\<close>

fun stageRows ::
  "database \<Rightarrow> txn \<Rightarrow> txn \<Rightarrow> row list \<Rightarrow> stagedChanges \<Rightarrow> (error + stagedChanges) option" where
  "stageRows db afterRevision newRevision [] changes = Some (Inr changes)"
| "stageRows db afterRevision newRevision (r # rs) changes =
     (case scanError db r of
        Some err \<Rightarrow> Some (Inl err)
      | None \<Rightarrow>
          (case stageRow afterRevision newRevision r changes of
             None \<Rightarrow> None
           | Some changes' \<Rightarrow> stageRows db afterRevision newRevision rs changes'))"

text \<open>
  The second half of \<open>loadChanges\<close>: the revisions with changes, sorted ascending, each
  turned into a \<open>RevisionChanges\<close> with the touches first and the deletes after. The
  lookup \<open>stagedChanges[rev]\<close> of a revision without a record would dereference a nil
  pointer: the result is \<open>None\<close> then.
\<close>

definition changesOf :: "changeRecord \<Rightarrow> RelationTupleUpdate list" where
  "changesOf revisionChangeRecord =
     map (\<lambda>(k, tpl). \<lparr>UpdateOperation = TOUCH, UpdateTuple = tpl\<rparr>)
       (tupleTouches revisionChangeRecord)
     @ map (\<lambda>(k, tpl). \<lparr>UpdateOperation = DELETE, UpdateTuple = tpl\<rparr>)
         (tupleDeletes revisionChangeRecord)"

definition emitChanges :: "stagedChanges \<Rightarrow> RevisionChanges list option" where
  "emitChanges staged =
     (let revisionsWithChanges = sort (map fst staged)
      in those (map (\<lambda>rev.
            case map_of staged rev of
              None \<Rightarrow> None
            | Some revisionChangeRecord \<Rightarrow>
                Some \<lparr>Revision = revisionFromTransaction rev,
                      Changes = changesOf revisionChangeRecord\<rparr>)
          revisionsWithChanges))"

text \<open>
  \<open>loadChanges\<close> returns its three named results (changes, newRevision, err) on every
  path. The condition handed to \<open>ToSql\<close> is a fixed, well-formed expression, for which
  squirrel reports no error.
\<close>

definition loadChanges ::
  "database \<Rightarrow> txn \<Rightarrow> (RevisionChanges list \<times> txn \<times> error option) option" where
  "loadChanges db afterRevision =
     (case loadRevisionResult db of
        (newRevision, Some err) \<Rightarrow> Some ([], newRevision, Some err)
      | (newRevision, None) \<Rightarrow>
          if newRevision = afterRevision then Some ([], newRevision, None)
          else
            (case queryError db of
               Some err \<Rightarrow>
                 Some ([], newRevision,
                       Some (if err = ContextCanceled then WatchCanceledErr else err))
             | None \<Rightarrow>
                 (case stageRows db afterRevision newRevision
                         (runQuery (changedQuery afterRevision newRevision) (tupleTable db)) [] of
                    None \<Rightarrow> None
                  | Some (Inl err) \<Rightarrow> Some ([], newRevision, Some err)
                  | Some (Inr staged) \<Rightarrow>
                      (case rowsError db of
                         Some err \<Rightarrow> Some ([], newRevision, Some err)
                       | None \<Rightarrow>
                           (case emitChanges staged of
                              None \<Rightarrow> None
                            | Some changes \<Rightarrow> Some (changes, newRevision, None))))))"

text \<open>
  The calls of \<open>addChange\<close> of a whole poll: those of every row the query returns, in the
  order of the rows.
\<close>

definition stagedEvents :: "database \<Rightarrow> txn \<Rightarrow> event list" where
  "stagedEvents db afterRevision =
     (let newRevision = fst (loadRevisionResult db)
      in concat (map (rowEvents afterRevision newRevision)
           (runQuery (changedQuery afterRevision newRevision) (tupleTable db))))"

subsection \<open>Views of the staged changes\<close>

definition recordAt :: "stagedChanges \<Rightarrow> txn \<Rightarrow> changeRecord" where
  "recordAt changes R =
     (case map_of changes R of Some rc \<Rightarrow> rc | None \<Rightarrow> \<lparr>tupleTouches = [], tupleDeletes = []\<rparr>)"

definition touchesAt :: "stagedChanges \<Rightarrow> txn \<Rightarrow> (string \<rightharpoonup> RelationTuple)" where
  "touchesAt changes R = map_of (tupleTouches (recordAt changes R))"

definition deletesAt :: "stagedChanges \<Rightarrow> txn \<Rightarrow> (string \<rightharpoonup> RelationTuple)" where
  "deletesAt changes R = map_of (tupleDeletes (recordAt changes R))"

definition touchKeys :: "event list \<Rightarrow> txn \<Rightarrow> string set" where
  "touchKeys es R = {k. \<exists>t. (R, t, TOUCH) \<in> set es \<and> tuple_String t = k}"

definition deleteKeys :: "event list \<Rightarrow> txn \<Rightarrow> string set" where
  "deleteKeys es R = {k. \<exists>t. (R, t, DELETE) \<in> set es \<and> tuple_String t = k}"

definition canonical :: "event list \<Rightarrow> bool" where
  "canonical es = inj_on tuple_String {t. \<exists>R op. (R, t, op) \<in> set es}"

text \<open>
  Tuples whose fields do not hold the separator that follows them; on these the format
  of the canonical string can be read back, as \<open>tuple_String_inj\<close> shows.
\<close>

definition unambiguous :: "RelationTuple \<Rightarrow> bool" where
  "unambiguous t =
     (CHR '':'' \<notin> set (Namespace (TupleObjectAndRelation t))
      \<and> CHR ''#'' \<notin> set (ObjectId (TupleObjectAndRelation t))
      \<and> CHR ''@'' \<notin> set (Relation (TupleObjectAndRelation t))
      \<and> CHR '':'' \<notin> set (Namespace (TupleUserset t))
      \<and> CHR ''#'' \<notin> set (ObjectId (TupleUserset t)))"

definition inInterval :: "txn \<Rightarrow> txn \<Rightarrow> txn \<Rightarrow> bool" where
  "inInterval afterRevision newRevision t = (afterRevision < t \<and> t \<le> newRevision)"

section \<open>The watch loop\<close>

text \<open>
  \<open>Watch\<close> starts one goroutine that polls for ever. The model runs it over a finite
  list of polls, each with what the surroundings do during that poll: the answers of the
  database, whether the context is cancelled, and what the consumer of the \<open>updates\<close>
  channel does before each attempt to send.

  The channel \<open>updates\<close> is a queue of capacity \<open>watchBufferLength\<close>; \<open>received\<close> collects
  what the consumer has taken from it. A send in a \<open>select\<close> with a \<open>default\<close> branch
  goes through when the consumer is blocked in a receive (the queue is empty then) or the
  queue has room, and takes the \<open>default\<close> branch otherwise. The channel \<open>errors\<close> has
  capacity one and its send is a plain, blocking one: with a full queue the goroutine
  would be \<open>Blocked\<close>. A return runs the two deferred \<open>close\<close> calls.
\<close>

datatype status = Running | Returned | Blocked | Exited

record watchState =
  currentTxn :: txn
  updates :: "RevisionChanges list"
  received :: "RevisionChanges list"
  errorsChan :: "error list"
  updatesClosed :: bool
  errorsClosed :: bool
  status :: status

record consumerStep =
  taken :: nat
  waiting :: bool

record poll =
  pollDatabase :: database
  ctxCanceled :: bool
  consumer :: "consumerStep list"
  canceledInSleep :: bool

definition consume :: "consumerStep \<Rightarrow> watchState \<Rightarrow> watchState" where
  "consume c s =
     s\<lparr>received := received s @ take (taken c) (updates s),
       updates := drop (taken c) (updates s)\<rparr>"

definition sendError :: "error \<Rightarrow> watchState \<Rightarrow> watchState" where
  "sendError err s =
     (if length (errorsChan s) < 1
      then s\<lparr>errorsChan := errorsChan s @ [err], errorsClosed := True, updatesClosed := True,
             status := Returned\<rparr>
      else s\<lparr>status := Blocked\<rparr>)"

text \<open>Whether the send of the \<open>select\<close> would block, after the consumer's step.\<close>

definition wouldBlock :: "nat \<Rightarrow> consumerStep \<Rightarrow> watchState \<Rightarrow> bool" where
  "wouldBlock capacity c s =
     (\<not> (updates (consume c s) = [] \<and> waiting c) \<and> capacity \<le> length (updates (consume c s)))"

text \<open>The loop that writes the staged updates to the channel.\<close>

fun writeStaged ::
  "nat \<Rightarrow> consumerStep list \<Rightarrow> RevisionChanges list \<Rightarrow> watchState \<Rightarrow> watchState" where
  "writeStaged capacity cs [] s = s"
| "writeStaged capacity cs (changeToWrite # stagedUpdates) s =
     (let c = (case cs of [] \<Rightarrow> \<lparr>taken = 0, waiting = False\<rparr> | c # _ \<Rightarrow> c);
          cs' = (case cs of [] \<Rightarrow> [] | _ # cs' \<Rightarrow> cs');
          s1 = consume c s
      in if updates s1 = [] \<and> waiting c
         then writeStaged capacity cs' stagedUpdates (s1\<lparr>received := received s1 @ [changeToWrite]\<rparr>)
         else if length (updates s1) < capacity
         then writeStaged capacity cs' stagedUpdates (s1\<lparr>updates := updates s1 @ [changeToWrite]\<rparr>)
         else sendError WatchDisconnectedErr s1)"

fun watchLoop :: "pgDatastore \<Rightarrow> poll list \<Rightarrow> watchState \<Rightarrow> watchState" where
  "watchLoop pgd [] s = s"
| "watchLoop pgd (p # ps) s =
     (case loadChanges (pollDatabase p) (currentTxn s) of
        None \<Rightarrow> s\<lparr>status := Exited\<rparr>
      | Some (stagedUpdates, newTxn, err) \<Rightarrow>
          (case err of
             Some e \<Rightarrow>
               sendError (if ctxCanceled p then WatchCanceledErr else e) (s\<lparr>currentTxn := newTxn\<rparr>)
           | None \<Rightarrow>
               (let s2 = writeStaged (watchBufferLength pgd) (consumer p) stagedUpdates
                           (s\<lparr>currentTxn := newTxn\<rparr>)
                in if status s2 \<noteq> Running then s2
                   else if stagedUpdates = [] \<and> canceledInSleep p
                   then sendError WatchCanceledErr s2
                   else watchLoop pgd ps s2)))"

definition Watch :: "pgDatastore \<Rightarrow> Revision \<Rightarrow> poll list \<Rightarrow> watchState" where
  "Watch pgd afterRevision polls =
     watchLoop pgd polls
       \<lparr>currentTxn = transactionFromRevision afterRevision, updates = [], received = [],
        errorsChan = [], updatesClosed = False, errorsClosed = False, status = Running\<rparr>"

text \<open>Every record sent on \<open>updates\<close> so far, in the order of sending.\<close>

definition emitted :: "watchState \<Rightarrow> RevisionChanges list" where
  "emitted s = received s @ updates s"

text \<open>
  Modelled from the spec: \<open>loadRevision\<close> is outside the files at hand. The spec says that
  the transaction counter it reads never decreases. \<open>counterMonotone\<close> states this of the
  values that the polls of one subscription read from the counter: the polls whose
  \<open>loadRevision\<close> succeeds see values in non-decreasing order. Nothing is said of the value
  that comes back together with an error.
\<close>

definition loadedRevision :: "poll \<Rightarrow> txn" where
  "loadedRevision p = fst (loadRevisionResult (pollDatabase p))"

definition loadSucceeded :: "poll \<Rightarrow> bool" where
  "loadSucceeded p = (snd (loadRevisionResult (pollDatabase p)) = None)"

definition counterMonotone :: "poll list \<Rightarrow> bool" where
  "counterMonotone polls = sorted (map loadedRevision (filter loadSucceeded polls))"

text \<open>
  The step of the consumer before the attempt number \<open>i\<close> of a poll (counted from 0); a
  consumer with no step left does nothing.
\<close>

definition stepAt :: "consumerStep list \<Rightarrow> nat \<Rightarrow> consumerStep" where
  "stepAt cs i = (if i < length cs then cs ! i else \<lparr>taken = 0, waiting = False\<rparr>)"

text \<open>
  A goroutine that is neither blocked nor dead, with the error channel empty and both
  channels open while it runs, and one error sent and both channels closed once it has
  returned.
\<close>

definition quiet :: "watchState \<Rightarrow> bool" where
  "quiet s = (status s \<noteq> Blocked \<and> status s \<noteq> Exited
     \<and> (status s = Running \<longrightarrow> errorsChan s = [] \<and> \<not> updatesClosed s \<and> \<not> errorsClosed s)
     \<and> (status s = Returned \<longrightarrow> length (errorsChan s) = 1 \<and> updatesClosed s \<and> errorsClosed s))"

text \<open>Events as \<open>loadChanges\<close> produces them, and the shape of a Go map.\<close>

definition onlyTouchDelete :: "event list \<Rightarrow> bool" where
  "onlyTouchDelete es = list_all (\<lambda>(r, t, op). op = TOUCH \<or> op = DELETE) es"

definition wfChanges :: "stagedChanges \<Rightarrow> bool" where
  "wfChanges c =
     (distinct (map fst c)
      \<and> (\<forall>R. distinct (map fst (tupleTouches (recordAt c R)))
             \<and> distinct (map fst (tupleDeletes (recordAt c R)))))"

text \<open>The \<open>RevisionChanges\<close> built for one revision with changes.\<close>

definition revisionChangesOf :: "stagedChanges \<Rightarrow> txn \<Rightarrow> RevisionChanges" where
  "revisionChangesOf c revision =
     \<lparr>Revision = revision, Changes = changesOf (recordAt c revision)\<rparr>"

subsection \<open>Example data\<close>

definition mkTuple :: "string \<Rightarrow> string \<Rightarrow> string \<Rightarrow> string \<Rightarrow> string \<Rightarrow> string \<Rightarrow> RelationTuple" where
  "mkTuple ns oid rel sns sid srel =
     \<lparr>TupleObjectAndRelation = \<lparr>Namespace = ns, ObjectId = oid, Relation = rel\<rparr>,
      TupleUserset = \<lparr>Namespace = sns, ObjectId = sid, Relation = srel\<rparr>\<rparr>"

definition mkRow :: "string \<Rightarrow> string \<Rightarrow> string \<Rightarrow> string \<Rightarrow> string \<Rightarrow> string \<Rightarrow> txn \<Rightarrow> txn \<Rightarrow> row" where
  "mkRow ns oid rel sns sid srel created deleted =
     \<lparr>namespace = ns, object_id = oid, relation = rel, userset_namespace = sns,
      userset_object_id = sid, userset_relation = srel, created_txn = created,
      deleted_txn = deleted\<rparr>"

definition healthyPoll :: "txn \<Rightarrow> row list \<Rightarrow> database" where
  "healthyPoll current rows =
     \<lparr>loadRevisionResult = (current, None), queryError = None, tupleTable = rows,
      scanError = (\<lambda>r. None), rowsError = None\<rparr>"

definition docViewerAlice :: RelationTuple where
  "docViewerAlice = mkTuple ''document'' ''doc1'' ''viewer'' ''user'' ''alice'' ''...''"

definition touchDeleteRows :: "row list" where
  "touchDeleteRows =
     [mkRow ''document'' ''doc1'' ''viewer'' ''user'' ''alice'' ''...'' 2 5,
      mkRow ''document'' ''doc1'' ''viewer'' ''user'' ''alice'' ''...'' 5 0]"

definition docViewerBob :: RelationTuple where
  "docViewerBob = mkTuple ''document'' ''doc1'' ''viewer'' ''user'' ''bob'' ''...''"

definition quietPoll :: "txn \<Rightarrow> row list \<Rightarrow> poll" where
  "quietPoll current rows =
     \<lparr>pollDatabase = healthyPoll current rows, ctxCanceled = False, consumer = [],
      canceledInSleep = False\<rparr>"

definition fourWrites :: "row list" where
  "fourWrites =
     [mkRow ''document'' ''doc1'' ''viewer'' ''user'' ''alice'' ''...'' 4 7,
      mkRow ''document'' ''doc1'' ''viewer'' ''user'' ''bob'' ''...'' 5 0,
      mkRow ''document'' ''doc2'' ''viewer'' ''user'' ''alice'' ''...'' 6 0]"

definition touchAlice4 :: RevisionChanges where
  "touchAlice4 =
     \<lparr>Revision = 4, Changes = [\<lparr>UpdateOperation = TOUCH, UpdateTuple = docViewerAlice\<rparr>]\<rparr>"

definition touchBob5 :: RevisionChanges where
  "touchBob5 =
     \<lparr>Revision = 5, Changes = [\<lparr>UpdateOperation = TOUCH, UpdateTuple = docViewerBob\<rparr>]\<rparr>"

definition smallBuffer :: pgDatastore where
  "smallBuffer = \<lparr>splitAtEstimatedQuerySize = 8, watchBufferLength = 1\<rparr>"

definition failedLoad :: poll where
  "failedLoad =
     \<lparr>pollDatabase =
        \<lparr>loadRevisionResult = (0, Some (OtherError ''connection reset'')), queryError = None,
         tupleTable = fourWrites, scanError = (\<lambda>r. None), rowsError = None\<rparr>,
      ctxCanceled = False, consumer = [], canceledInSleep = False\<rparr>"

definition examplePolls :: "poll list" where
  "examplePolls =
     [quietPoll 5 fourWrites, quietPoll 5 fourWrites, quietPoll 7 fourWrites, failedLoad]"

section \<open>Properties of the change collapsing\<close>

lemma recordAt_update:
  "recordAt (AList.update R rc c) R' = (if R' = R then rc else recordAt c R')"
  by (simp add: recordAt_def update_conv')

lemma keys_update: "set (map fst (AList.update R rc c)) = insert R (set (map fst c))"
  by (auto simp: update_keys)

lemma addChange_TOUCH:
  "addChange c R t TOUCH = Some c' \<Longrightarrow>
     touchesAt c' R' = (if R' = R then (touchesAt c R)(tuple_String t \<mapsto> t) else touchesAt c R')
   \<and> deletesAt c' R' = (if R' = R then (deletesAt c R)(tuple_String t := None) else deletesAt c R')
   \<and> set (map fst c') = insert R (set (map fst c))"
  by (auto simp: addChange_def Let_def touchesAt_def deletesAt_def recordAt_update update_conv'
      delete_conv' recordAt_def[symmetric] keys_update simp del: set_map)

lemma addChange_DELETE:
  "addChange c R t DELETE = Some c' \<Longrightarrow>
     touchesAt c' R' = touchesAt c R'
   \<and> deletesAt c' R' = (if R' = R \<and> touchesAt c R (tuple_String t) = None
                         then (deletesAt c R)(tuple_String t \<mapsto> t) else deletesAt c R')
   \<and> set (map fst c') = insert R (set (map fst c))"
  by (auto simp: addChange_def Let_def touchesAt_def deletesAt_def recordAt_update update_conv'
      delete_conv' recordAt_def[symmetric] keys_update simp del: set_map split: if_splits)


lemma addChange_Some_op: "addChange c R t op = Some c' \<Longrightarrow> op = TOUCH \<or> op = DELETE"
  by (cases op) (auto simp: addChange_def Let_def)

lemma addChanges_append:
  "addChanges (es @ es') c =
     (case addChanges es c of None \<Rightarrow> None | Some c' \<Rightarrow> addChanges es' c')"
  by (induction es arbitrary: c) (auto split: option.splits)

lemma addChanges_snoc_Some:
  assumes "addChanges (es @ [(R, t, op)]) c = Some c'"
  obtains c0 where "addChanges es c = Some c0" and "addChange c0 R t op = Some c'"
  using assms by (auto simp: addChanges_append split: option.splits)

lemma touchKeys_snoc:
  "touchKeys (es @ [(r, t, op)]) R =
     (if r = R \<and> op = TOUCH then insert (tuple_String t) (touchKeys es R) else touchKeys es R)"
  by (auto simp: touchKeys_def)

lemma deleteKeys_snoc:
  "deleteKeys (es @ [(r, t, op)]) R =
     (if r = R \<and> op = DELETE then insert (tuple_String t) (deleteKeys es R) else deleteKeys es R)"
  by (auto simp: deleteKeys_def)

lemma touchesAt_Nil: "touchesAt [] R = Map.empty" and deletesAt_Nil: "deletesAt [] R = Map.empty"
  by (simp_all add: touchesAt_def deletesAt_def recordAt_def)

lemma TOUCH_touches:
  "addChange c R t TOUCH = Some c' \<Longrightarrow>
   touchesAt c' R' k = (if R' = R \<and> k = tuple_String t then Some t else touchesAt c R' k)"
  by (drule addChange_TOUCH [of _ _ _ _ R']) (auto split: if_splits)

lemma TOUCH_deletes:
  "addChange c R t TOUCH = Some c' \<Longrightarrow>
   deletesAt c' R' k = (if R' = R \<and> k = tuple_String t then None else deletesAt c R' k)"
  by (drule addChange_TOUCH [of _ _ _ _ R']) (auto split: if_splits)

lemma DELETE_touches:
  "addChange c R t DELETE = Some c' \<Longrightarrow> touchesAt c' R' k = touchesAt c R' k"
  by (drule addChange_DELETE [of _ _ _ _ R']) (auto split: if_splits)

lemma DELETE_deletes:
  "addChange c R t DELETE = Some c' \<Longrightarrow>
   deletesAt c' R' k =
     (if R' = R \<and> k = tuple_String t \<and> touchesAt c R k = None then Some t else deletesAt c R' k)"
  by (drule addChange_DELETE [of _ _ _ _ R']) (auto split: if_splits)

lemma in_touchKeys_snoc:
  "k \<in> touchKeys (es @ [(r, t, op)]) R =
     (k \<in> touchKeys es R \<or> (r = R \<and> op = TOUCH \<and> k = tuple_String t))"
  by (auto simp: touchKeys_def)

lemma in_deleteKeys_snoc:
  "k \<in> deleteKeys (es @ [(r, t, op)]) R =
     (k \<in> deleteKeys es R \<or> (r = R \<and> op = DELETE \<and> k = tuple_String t))"
  by (auto simp: deleteKeys_def)

lemma staged_dom:
  "addChanges es [] = Some c \<Longrightarrow>
     (touchesAt c R k \<noteq> None) = (k \<in> touchKeys es R)
   \<and> (deletesAt c R k \<noteq> None) = (k \<in> deleteKeys es R \<and> k \<notin> touchKeys es R)"
proof (induction es arbitrary: c rule: rev_induct)
  case Nil
  then show ?case by (simp add: touchesAt_Nil deletesAt_Nil touchKeys_def deleteKeys_def)
next
  case (snoc e es)
  obtain r t op where e: "e = (r, t, op)" by (cases e)
  from snoc.prems obtain c0 where c0: "addChanges es [] = Some c0"
    and step: "addChange c0 r t op = Some c"
    unfolding e by (rule addChanges_snoc_Some)
  note IH = snoc.IH [OF c0]
  from addChange_Some_op [OF step] show ?case
  proof
    assume op: "op = TOUCH"
    note st = step [unfolded op]
    show ?thesis
      unfolding e op in_touchKeys_snoc in_deleteKeys_snoc TOUCH_touches [OF st] TOUCH_deletes [OF st]
      using IH by auto
  next
    assume op: "op = DELETE"
    note st = step [unfolded op]
    show ?thesis
      unfolding e op in_touchKeys_snoc in_deleteKeys_snoc DELETE_touches [OF st] DELETE_deletes [OF st]
      using IH by auto
  qed
qed

lemma staged_sound:
  "addChanges es [] = Some c \<Longrightarrow>
     (touchesAt c R k = Some t \<longrightarrow> tuple_String t = k \<and> (R, t, TOUCH) \<in> set es)
   \<and> (deletesAt c R k = Some t \<longrightarrow> tuple_String t = k \<and> (R, t, DELETE) \<in> set es)"
proof (induction es arbitrary: c rule: rev_induct)
  case Nil
  then show ?case by (simp add: touchesAt_Nil deletesAt_Nil)
next
  case (snoc e es)
  obtain r u op where e: "e = (r, u, op)" by (cases e)
  from snoc.prems obtain c0 where c0: "addChanges es [] = Some c0"
    and step: "addChange c0 r u op = Some c"
    unfolding e by (rule addChanges_snoc_Some)
  from snoc.IH [OF c0]
  have IH1: "touchesAt c0 R k = Some t \<Longrightarrow> tuple_String t = k \<and> (R, t, TOUCH) \<in> set es"
    and IH2: "deletesAt c0 R k = Some t \<Longrightarrow> tuple_String t = k \<and> (R, t, DELETE) \<in> set es"
    by simp_all
  from addChange_Some_op [OF step] show ?case
  proof
    assume op: "op = TOUCH"
    note st = step [unfolded op]
    have "touchesAt c R k = Some t \<Longrightarrow> tuple_String t = k \<and> (R, t, TOUCH) \<in> set (es @ [e])"
      unfolding TOUCH_touches [OF st] e op using IH1 by (simp split: if_splits)
    moreover
    have "deletesAt c R k = Some t \<Longrightarrow> tuple_String t = k \<and> (R, t, DELETE) \<in> set (es @ [e])"
      unfolding TOUCH_deletes [OF st] e op using IH2 by (simp split: if_splits)
    ultimately show ?thesis by blast
  next
    assume op: "op = DELETE"
    note st = step [unfolded op]
    have "touchesAt c R k = Some t \<Longrightarrow> tuple_String t = k \<and> (R, t, TOUCH) \<in> set (es @ [e])"
      unfolding DELETE_touches [OF st] e op using IH1 by simp
    moreover
    have "deletesAt c R k = Some t \<Longrightarrow> tuple_String t = k \<and> (R, t, DELETE) \<in> set (es @ [e])"
      unfolding DELETE_deletes [OF st] e op using IH2 by (simp split: if_splits)
    ultimately show ?thesis by blast
  qed
qed

lemma addChange_keys:
  "addChange c R t op = Some c' \<Longrightarrow> (map_of c' R' \<noteq> None) = (R' = R \<or> map_of c R' \<noteq> None)"
  by (cases op) (auto simp: addChange_def Let_def update_conv' split: if_splits)

lemma staged_keys:
  "addChanges es [] = Some c \<Longrightarrow> (map_of c R \<noteq> None) = (\<exists>t op. (R, t, op) \<in> set es)"
proof (induction es arbitrary: c rule: rev_induct)
  case Nil
  then show ?case by simp
next
  case (snoc e es)
  obtain r u op where e: "e = (r, u, op)" by (cases e)
  from snoc.prems obtain c0 where c0: "addChanges es [] = Some c0"
    and step: "addChange c0 r u op = Some c"
    unfolding e by (rule addChanges_snoc_Some)
  have "(\<exists>t op'. (R, t, op') \<in> set (es @ [e])) = (R = r \<or> (\<exists>t op'. (R, t, op') \<in> set es))"
    unfolding e by auto
  then show ?case
    unfolding addChange_keys [OF step] using snoc.IH [OF c0] by simp
qed

lemma stageRow_rowEvents: "stageRow a n r c = addChanges (rowEvents a n r) c"
  by (auto simp: stageRow_def rowEvents_def Let_def split: option.splits)

lemma stageRows_events:
  "stageRows db a n rows c = Some (Inr c') \<Longrightarrow>
   addChanges (concat (map (rowEvents a n) rows)) c = Some c'"
proof (induction rows arbitrary: c)
  case Nil
  then show ?case by simp
next
  case (Cons r rows)
  from Cons.prems obtain c1 where c1: "stageRow a n r c = Some c1"
    and rest: "stageRows db a n rows c1 = Some (Inr c')"
    by (auto split: option.splits)
  from Cons.IH [OF rest] c1 show ?case
    by (simp add: addChanges_append stageRow_rowEvents)
qed

lemma addChange_total: "op = TOUCH \<or> op = DELETE \<Longrightarrow> \<exists>c'. addChange c R t op = Some c'"
  by (auto simp: addChange_def Let_def)

lemma addChanges_total: "onlyTouchDelete es \<Longrightarrow> \<exists>c'. addChanges es c = Some c'"
proof (induction es arbitrary: c)
  case Nil
  then show ?case by simp
next
  case (Cons e es)
  obtain r t op where e: "e = (r, t, op)" by (cases e)
  from Cons.prems have op: "op = TOUCH \<or> op = DELETE" and rest: "onlyTouchDelete es"
    by (simp_all add: onlyTouchDelete_def e)
  from addChange_total [OF op] obtain c1 where "addChange c r t op = Some c1" by blast
  with Cons.IH [OF rest, of c1] show ?case by (simp add: e)
qed

lemma wfChanges_Nil: "wfChanges []"
  by (simp add: wfChanges_def recordAt_def)

lemma wfChanges_update:
  "wfChanges c \<Longrightarrow> distinct (map fst (tupleTouches rc)) \<Longrightarrow> distinct (map fst (tupleDeletes rc))
   \<Longrightarrow> wfChanges (AList.update R rc c)"
  by (simp add: wfChanges_def recordAt_update distinct_update)

lemma wfChanges_recordAt:
  "wfChanges c \<Longrightarrow> distinct (map fst (tupleTouches (recordAt c R)))
     \<and> distinct (map fst (tupleDeletes (recordAt c R)))"
  by (simp add: wfChanges_def)

lemma wfChanges_addChange:
  assumes "wfChanges c" and "addChange c R t op = Some c'"
  shows "wfChanges c'"
proof -
  note d = wfChanges_recordAt [OF assms(1), of R]
  from addChange_Some_op [OF assms(2)] show ?thesis
  proof
    assume "op = TOUCH"
    with assms(2) have "c' = AList.update R
        ((recordAt c R)\<lparr>tupleTouches := AList.update (tuple_String t) t (tupleTouches (recordAt c R)),
                        tupleDeletes := AList.delete (tuple_String t) (tupleDeletes (recordAt c R))\<rparr>) c"
      by (simp add: addChange_def Let_def recordAt_def)
    then show ?thesis
      using d assms(1) by (simp add: wfChanges_update distinct_update distinct_delete)
  next
    assume "op = DELETE"
    with assms(2) have "c' = AList.update R (recordAt c R) c
       \<or> c' = AList.update R
        ((recordAt c R)\<lparr>tupleDeletes := AList.update (tuple_String t) t (tupleDeletes (recordAt c R))\<rparr>) c"
      by (auto simp: addChange_def Let_def recordAt_def split: if_splits)
    then show ?thesis
      using d assms(1) by (auto simp: wfChanges_update distinct_update)
  qed
qed

lemma wfChanges_addChanges:
  "wfChanges c \<Longrightarrow> addChanges es c = Some c' \<Longrightarrow> wfChanges c'"
proof (induction es arbitrary: c)
  case Nil
  then show ?case by simp
next
  case (Cons e es)
  obtain r t op where e: "e = (r, t, op)" by (cases e)
  from Cons.prems(2) obtain c1 where c1: "addChange c r t op = Some c1"
    and rest: "addChanges es c1 = Some c'"
    by (auto simp: e split: option.splits)
  from Cons.IH [OF wfChanges_addChange [OF Cons.prems(1) c1] rest] show ?case .
qed

lemma those_map_Some: "(\<And>x. x \<in> set xs \<Longrightarrow> f x = Some (g x)) \<Longrightarrow> those (map f xs) = Some (map g xs)"
  by (induction xs) simp_all

lemma emitChanges_eq:
  "emitChanges c =
     Some (map (\<lambda>rev. \<lparr>Revision = rev, Changes = changesOf (recordAt c rev)\<rparr>) (sort (map fst c)))"
proof -
  have "(case map_of c rev of None \<Rightarrow> None
         | Some rc \<Rightarrow> Some \<lparr>Revision = revisionFromTransaction rev, Changes = changesOf rc\<rparr>)
        = Some \<lparr>Revision = rev, Changes = changesOf (recordAt c rev)\<rparr>"
    if "rev \<in> set (sort (map fst c))" for rev
  proof -
    from that have "map_of c rev \<noteq> None" by (simp add: map_of_eq_None_iff)
    then obtain rc where "map_of c rev = Some rc" by blast
    then show ?thesis by (simp add: recordAt_def revisionFromTransaction_def)
  qed
  then show ?thesis
    unfolding emitChanges_def Let_def by (rule those_map_Some)
qed

lemma filter_keys_distinct:
  "distinct (map fst al) \<Longrightarrow>
   filter (\<lambda>(k, v). k = k0) al = (case map_of al k0 of None \<Rightarrow> [] | Some v \<Rightarrow> [(k0, v)])"
proof (induction al)
  case Nil
  then show ?case by simp
next
  case (Cons a al)
  obtain k v where a: "a = (k, v)" by (cases a)
  show ?case
  proof (cases "k = k0")
    case True
    with Cons.prems a have "map_of al k0 = None"
      by (simp add: map_of_eq_None_iff)
    with Cons True a show ?thesis by simp
  next
    case False
    with Cons a show ?thesis by simp
  qed
qed

lemma rowEvents_empty_interval: "rowEvents a a r = []"
  by (auto simp: rowEvents_def)

lemma rowEvents_ops: "onlyTouchDelete (rowEvents a n r)"
  by (simp add: rowEvents_def onlyTouchDelete_def)

lemma loadChanges_success:
  assumes "loadChanges db after = Some (changes, new, None)"
  shows "\<exists>c. addChanges (stagedEvents db after) [] = Some c
           \<and> changes = map (revisionChangesOf c) (sort (map fst c))
           \<and> new = fst (loadRevisionResult db)"
proof -
  obtain n e where lr: "loadRevisionResult db = (n, e)" by (cases "loadRevisionResult db")
  from assms lr have e: "e = None" and n: "n = new"
    by (auto simp: loadChanges_def split: option.splits if_splits sum.splits)
  show ?thesis
  proof (cases "new = after")
    case True
    with assms lr e n have "changes = []" by (simp add: loadChanges_def)
    moreover have "stagedEvents db after = []"
      using True lr n by (simp add: stagedEvents_def rowEvents_empty_interval)
    ultimately show ?thesis using lr n by simp
  next
    case False
    with assms lr e n obtain c where
      st: "stageRows db after new (runQuery (changedQuery after new) (tupleTable db)) [] = Some (Inr c)"
      and em: "emitChanges c = Some changes"
      by (auto simp: loadChanges_def split: option.splits if_splits sum.splits)
    from stageRows_events [OF st] have "addChanges (stagedEvents db after) [] = Some c"
      using lr n by (simp add: stagedEvents_def)
    moreover from em have "changes = map (revisionChangesOf c) (sort (map fst c))"
      unfolding emitChanges_eq revisionChangesOf_def by simp
    ultimately show ?thesis using lr n by simp
  qed
qed

lemma filter_eq_distinct: "distinct xs \<Longrightarrow> x \<in> set xs \<Longrightarrow> filter (\<lambda>y. y = x) xs = [x]"
  by (induction xs) (auto simp: filter_empty_conv)

lemma revision_unique:
  assumes "distinct (map fst c)" and "map_of c R \<noteq> None"
  shows "filter (\<lambda>x. Revision x = R) (map (revisionChangesOf c) (sort (map fst c)))
         = [revisionChangesOf c R]"
proof -
  have "filter (\<lambda>x. Revision x = R) (map (revisionChangesOf c) (sort (map fst c)))
        = map (revisionChangesOf c) (filter (\<lambda>y. y = R) (sort (map fst c)))"
    by (simp add: filter_map comp_def revisionChangesOf_def)
  moreover have "filter (\<lambda>y. y = R) (sort (map fst c)) = [R]"
    using assms by (intro filter_eq_distinct) (simp_all add: map_of_eq_None_iff)
  ultimately show ?thesis by simp
qed

lemma filter_sound_keys:
  assumes "\<And>k v. (k, v) \<in> set al \<Longrightarrow> f v = k"
  shows "filter (\<lambda>(k, v). f v = k0) al = filter (\<lambda>(k, v). k = k0) al"
  using assms by (intro filter_cong) auto

lemma staged_entries:
  assumes "addChanges es [] = Some c"
  shows "(k, v) \<in> set (tupleTouches (recordAt c R)) \<Longrightarrow> tuple_String v = k"
    and "(k, v) \<in> set (tupleDeletes (recordAt c R)) \<Longrightarrow> tuple_String v = k"
proof -
  have wf: "wfChanges c" using wfChanges_addChanges [OF wfChanges_Nil assms] .
  note d = wfChanges_recordAt [OF wf, of R]
  show "(k, v) \<in> set (tupleTouches (recordAt c R)) \<Longrightarrow> tuple_String v = k"
    using d staged_sound [OF assms, of R k v] by (simp add: touchesAt_def)
  show "(k, v) \<in> set (tupleDeletes (recordAt c R)) \<Longrightarrow> tuple_String v = k"
    using d staged_sound [OF assms, of R k v] by (simp add: deletesAt_def)
qed

lemma emitted_touches:
  assumes "addChanges es [] = Some c"
  shows "filter (\<lambda>u. UpdateOperation u = TOUCH \<and> tuple_String (UpdateTuple u) = k0)
           (changesOf (recordAt c R))
         = (case touchesAt c R k0 of None \<Rightarrow> []
            | Some v \<Rightarrow> [\<lparr>UpdateOperation = TOUCH, UpdateTuple = v\<rparr>])"
proof -
  have wf: "wfChanges c" using wfChanges_addChanges [OF wfChanges_Nil assms] .
  note d = wfChanges_recordAt [OF wf, of R]
  have "filter (\<lambda>u. UpdateOperation u = TOUCH \<and> tuple_String (UpdateTuple u) = k0)
           (changesOf (recordAt c R))
        = map (\<lambda>(k, tpl). \<lparr>UpdateOperation = TOUCH, UpdateTuple = tpl\<rparr>)
            (filter (\<lambda>(k, v). tuple_String v = k0) (tupleTouches (recordAt c R)))"
    by (simp add: changesOf_def filter_map comp_def case_prod_unfold)
  also have "filter (\<lambda>(k, v). tuple_String v = k0) (tupleTouches (recordAt c R))
        = filter (\<lambda>(k, v). k = k0) (tupleTouches (recordAt c R))"
    by (rule filter_sound_keys) (rule staged_entries(1) [OF assms])
  also have "\<dots> = (case touchesAt c R k0 of None \<Rightarrow> [] | Some v \<Rightarrow> [(k0, v)])"
    using d by (simp add: filter_keys_distinct touchesAt_def)
  finally show ?thesis by (simp split: option.splits)
qed

lemma emitted_deletes:
  assumes "addChanges es [] = Some c"
  shows "filter (\<lambda>u. UpdateOperation u = DELETE \<and> tuple_String (UpdateTuple u) = k0)
           (changesOf (recordAt c R))
         = (case deletesAt c R k0 of None \<Rightarrow> []
            | Some v \<Rightarrow> [\<lparr>UpdateOperation = DELETE, UpdateTuple = v\<rparr>])"
proof -
  have wf: "wfChanges c" using wfChanges_addChanges [OF wfChanges_Nil assms] .
  note d = wfChanges_recordAt [OF wf, of R]
  have "filter (\<lambda>u. UpdateOperation u = DELETE \<and> tuple_String (UpdateTuple u) = k0)
           (changesOf (recordAt c R))
        = map (\<lambda>(k, tpl). \<lparr>UpdateOperation = DELETE, UpdateTuple = tpl\<rparr>)
            (filter (\<lambda>(k, v). tuple_String v = k0) (tupleDeletes (recordAt c R)))"
    by (simp add: changesOf_def filter_map comp_def case_prod_unfold)
  also have "filter (\<lambda>(k, v). tuple_String v = k0) (tupleDeletes (recordAt c R))
        = filter (\<lambda>(k, v). k = k0) (tupleDeletes (recordAt c R))"
    by (rule filter_sound_keys) (rule staged_entries(2) [OF assms])
  also have "\<dots> = (case deletesAt c R k0 of None \<Rightarrow> [] | Some v \<Rightarrow> [(k0, v)])"
    using d by (simp add: filter_keys_distinct deletesAt_def)
  finally show ?thesis by (simp split: option.splits)
qed

section \<open>The claims about the change feed\<close>

text \<open>
  C10. One stored row whose \<open>created_txn\<close> and \<open>deleted_txn\<close> both lie in the polled
  interval \<open>(afterRevision, newRevision]\<close> makes the loop body call \<open>addChange\<close> twice:
  a \<open>TOUCH\<close> at \<open>created_txn\<close>, then a \<open>DELETE\<close> at \<open>deleted_txn\<close>. The query matches
  a row when at least one of the two ids lies in the interval, and the guards of the loop
  body test each id again: a row matched on one bound only contributes that one call.
\<close>

theorem stageRow_events:
  "stageRow a n r c = addChanges (rowEvents a n r) c
   \<and> selects (changedQuery a n) r = (inInterval a n (created_txn r) \<or> inInterval a n (deleted_txn r))
   \<and> (inInterval a n (created_txn r) \<and> inInterval a n (deleted_txn r) \<longrightarrow>
        rowEvents a n r = [(created_txn r, tupleOfRow r, TOUCH), (deleted_txn r, tupleOfRow r, DELETE)])
   \<and> (inInterval a n (created_txn r) \<and> \<not> inInterval a n (deleted_txn r) \<longrightarrow>
        rowEvents a n r = [(created_txn r, tupleOfRow r, TOUCH)])
   \<and> (\<not> inInterval a n (created_txn r) \<and> inInterval a n (deleted_txn r) \<longrightarrow>
        rowEvents a n r = [(deleted_txn r, tupleOfRow r, DELETE)])"
proof -
  have "selects (changedQuery a n) r
        = (inInterval a n (created_txn r) \<or> inInterval a n (deleted_txn r))"
    by (simp add: changedQuery_def queryChanged_def selects_Where selects_Nil colValue_def
        argGt_def argLtOrEq_def inInterval_def)
  then show ?thesis
    by (simp add: stageRow_rowEvents rowEvents_def inInterval_def)
qed

theorem stageRow_events_witness:
  "inInterval 3 5 4 \<and> inInterval 3 5 5 \<and> \<not> inInterval 3 5 2
   \<and> rowEvents 3 5 (mkRow ''document'' ''doc1'' ''viewer'' ''user'' ''alice'' ''...'' 4 5)
       = [(4, docViewerAlice, TOUCH), (5, docViewerAlice, DELETE)]
   \<and> rowEvents 3 5 (mkRow ''document'' ''doc1'' ''viewer'' ''user'' ''alice'' ''...'' 2 5)
       = [(5, docViewerAlice, DELETE)]
   \<and> rowEvents 3 5 (mkRow ''document'' ''doc1'' ''viewer'' ''user'' ''alice'' ''...'' 4 0)
       = [(4, docViewerAlice, TOUCH)]"
proof -
  have i: "inInterval 3 5 4" "inInterval 3 5 5" "\<not> inInterval 3 5 2" "\<not> inInterval 3 5 0"
    by (simp_all add: inInterval_def)
  have t: "tupleOfRow (mkRow ''document'' ''doc1'' ''viewer'' ''user'' ''alice'' ''...'' x y)
           = docViewerAlice" for x y
    by (simp add: tupleOfRow_def mkRow_def docViewerAlice_def mkTuple_def)
  have c: "created_txn (mkRow ns oid rel sns sid srel x y) = x"
    "deleted_txn (mkRow ns oid rel sns sid srel x y) = y" for ns oid rel sns sid srel x y
    by (simp_all add: mkRow_def)
  show ?thesis
    using i
      stageRow_events [of 3 5 "mkRow ''document'' ''doc1'' ''viewer'' ''user'' ''alice'' ''...'' 4 5" "[]"]
      stageRow_events [of 3 5 "mkRow ''document'' ''doc1'' ''viewer'' ''user'' ''alice'' ''...'' 2 5" "[]"]
      stageRow_events [of 3 5 "mkRow ''document'' ''doc1'' ''viewer'' ''user'' ''alice'' ''...'' 4 0" "[]"]
    by (simp add: t c)
qed

lemma changes_staged:
  assumes "addChanges es [] = Some c" and "u \<in> set (changesOf (recordAt c R))"
  shows "\<exists>op. (R, UpdateTuple u, op) \<in> set es"
proof -
  have wf: "wfChanges c" using wfChanges_addChanges [OF wfChanges_Nil assms(1)] .
  note d = wfChanges_recordAt [OF wf, of R]
  from assms(2) consider
      k v where "(k, v) \<in> set (tupleTouches (recordAt c R))" "UpdateTuple u = v"
    | k v where "(k, v) \<in> set (tupleDeletes (recordAt c R))" "UpdateTuple u = v"
    by (auto simp: changesOf_def)
  then show ?thesis
  proof cases
    case 1
    with d have "touchesAt c R k = Some v" by (simp add: touchesAt_def)
    with staged_sound [OF assms(1), of R k v] 1 show ?thesis by blast
  next
    case 2
    with d have "deletesAt c R k = Some v" by (simp add: deletesAt_def)
    with staged_sound [OF assms(1), of R k v] 2 show ?thesis by blast
  qed
qed

lemma canonical_same_tuple:
  assumes "canonical es" and "(R, t, op) \<in> set es" and "(R', t', op') \<in> set es"
    and "tuple_String t' = tuple_String t"
  shows "t' = t"
  using assms unfolding canonical_def inj_on_def by blast

lemma split_unique:
  "c \<notin> set a \<Longrightarrow> c \<notin> set a' \<Longrightarrow> a @ c # r = a' @ c # r' \<Longrightarrow> a = a' \<and> r = r'"
proof (induction a arbitrary: a')
  case Nil
  then show ?case by (cases a') auto
next
  case (Cons x a)
  then show ?case by (cases a') auto
qed

lemma tuple_String_inj:
  assumes "unambiguous t" and "unambiguous t'" and "tuple_String t = tuple_String t'"
  shows "t = t'"
proof -
  obtain o1 u1 where t: "t = \<lparr>TupleObjectAndRelation = o1, TupleUserset = u1\<rparr>" by (cases t)
  obtain o2 u2 where t': "t' = \<lparr>TupleObjectAndRelation = o2, TupleUserset = u2\<rparr>" by (cases t')
  obtain n1 i1 r1 where o1: "o1 = \<lparr>Namespace = n1, ObjectId = i1, Relation = r1\<rparr>" by (cases o1)
  obtain n2 i2 r2 where o2: "o2 = \<lparr>Namespace = n2, ObjectId = i2, Relation = r2\<rparr>" by (cases o2)
  obtain m1 j1 q1 where u1: "u1 = \<lparr>Namespace = m1, ObjectId = j1, Relation = q1\<rparr>" by (cases u1)
  obtain m2 j2 q2 where u2: "u2 = \<lparr>Namespace = m2, ObjectId = j2, Relation = q2\<rparr>" by (cases u2)
  from assms(1,2) have free:
    "CHR '':'' \<notin> set n1" "CHR ''#'' \<notin> set i1" "CHR ''@'' \<notin> set r1" "CHR '':'' \<notin> set m1" "CHR ''#'' \<notin> set j1"
    "CHR '':'' \<notin> set n2" "CHR ''#'' \<notin> set i2" "CHR ''@'' \<notin> set r2" "CHR '':'' \<notin> set m2" "CHR ''#'' \<notin> set j2"
    by (simp_all add: unambiguous_def t t' o1 o2 u1 u2)
  from assms(3) have e0: "n1 @ CHR '':'' # (i1 @ CHR ''#'' # (r1 @ CHR ''@'' # (m1 @ CHR '':'' # (j1 @ CHR ''#'' # q1))))
      = n2 @ CHR '':'' # (i2 @ CHR ''#'' # (r2 @ CHR ''@'' # (m2 @ CHR '':'' # (j2 @ CHR ''#'' # q2))))"
    by (simp add: tuple_String_def StringONR_def t t' o1 o2 u1 u2)
  from split_unique [OF free(1) free(6) e0] have n: "n1 = n2"
    and e1: "i1 @ CHR ''#'' # (r1 @ CHR ''@'' # (m1 @ CHR '':'' # (j1 @ CHR ''#'' # q1)))
      = i2 @ CHR ''#'' # (r2 @ CHR ''@'' # (m2 @ CHR '':'' # (j2 @ CHR ''#'' # q2)))"
    by simp_all
  from split_unique [OF free(2) free(7) e1] have i: "i1 = i2"
    and e2: "r1 @ CHR ''@'' # (m1 @ CHR '':'' # (j1 @ CHR ''#'' # q1))
      = r2 @ CHR ''@'' # (m2 @ CHR '':'' # (j2 @ CHR ''#'' # q2))"
    by simp_all
  from split_unique [OF free(3) free(8) e2] have r: "r1 = r2"
    and e3: "m1 @ CHR '':'' # (j1 @ CHR ''#'' # q1) = m2 @ CHR '':'' # (j2 @ CHR ''#'' # q2)"
    by simp_all
  from split_unique [OF free(4) free(9) e3] have mm: "m1 = m2"
    and e4: "j1 @ CHR ''#'' # q1 = j2 @ CHR ''#'' # q2"
    by simp_all
  from split_unique [OF free(5) free(10) e4] have j: "j1 = j2" and q: "q1 = q2"
    by simp_all
  show ?thesis by (simp add: t t' o1 o2 u1 u2 n i r mm j q)
qed

lemma canonical_unambiguous:
  "list_all (\<lambda>(R, t, op). unambiguous t) es \<Longrightarrow> canonical es"
  unfolding canonical_def inj_on_def list_all_iff
  by (auto intro: tuple_String_inj)

text \<open>
  C1. If a successful poll stages both a \<open>TOUCH\<close> and a \<open>DELETE\<close> for the tuple \<open>t\<close> at
  the revision \<open>R\<close>, then exactly one \<open>RevisionChanges\<close> is emitted for \<open>R\<close>, and its changes
  contain exactly one \<open>TOUCH\<close> of \<open>t\<close> and no \<open>DELETE\<close> of \<open>t\<close>. The canonical string
  stands for the tuple, as the spec has it: the staged tuples have pairwise different
  canonical strings.
\<close>

theorem touch_supersedes_delete:
  assumes "loadChanges db after = Some (changes, new, None)"
    and "canonical (stagedEvents db after)"
    and "(R, t, TOUCH) \<in> set (stagedEvents db after)"
    and "(R, t, DELETE) \<in> set (stagedEvents db after)"
  shows "\<exists>rc. filter (\<lambda>x. Revision x = R) changes = [rc]
     \<and> filter (\<lambda>u. UpdateOperation u = TOUCH \<and> UpdateTuple u = t) (Changes rc)
         = [\<lparr>UpdateOperation = TOUCH, UpdateTuple = t\<rparr>]
     \<and> filter (\<lambda>u. UpdateOperation u = DELETE \<and> UpdateTuple u = t) (Changes rc) = []"
proof -
  from loadChanges_success [OF assms(1)] obtain c where
    st: "addChanges (stagedEvents db after) [] = Some c"
    and ch: "changes = map (revisionChangesOf c) (sort (map fst c))"
    by blast
  have wf: "wfChanges c" using wfChanges_addChanges [OF wfChanges_Nil st] .
  have key: "map_of c R \<noteq> None"
    using staged_keys [OF st, of R] assms(3) by blast
  have uniq: "filter (\<lambda>x. Revision x = R) changes = [revisionChangesOf c R]"
    unfolding ch using wf key by (intro revision_unique) (simp_all add: wfChanges_def)
  have inT: "tuple_String t \<in> touchKeys (stagedEvents db after) R"
    using assms(3) by (auto simp: touchKeys_def)
  from staged_dom [OF st, of R "tuple_String t"] inT
  obtain v where v: "touchesAt c R (tuple_String t) = Some v"
    and nd: "deletesAt c R (tuple_String t) = None"
    by auto
  from staged_sound [OF st, of R "tuple_String t" v] v
  have vs: "tuple_String v = tuple_String t" "(R, v, TOUCH) \<in> set (stagedEvents db after)"
    by simp_all
  have vt: "v = t"
    using canonical_same_tuple [OF assms(2) assms(3) vs(2) vs(1)] .
  have chg: "Changes (revisionChangesOf c R) = changesOf (recordAt c R)"
    by (simp add: revisionChangesOf_def)
  have same: "(UpdateTuple u = t) = (tuple_String (UpdateTuple u) = tuple_String t)"
    if "u \<in> set (changesOf (recordAt c R))" for u
  proof -
    from changes_staged [OF st that] obtain op where "(R, UpdateTuple u, op) \<in> set (stagedEvents db after)"
      by blast
    from canonical_same_tuple [OF assms(2) assms(3) this] show ?thesis by auto
  qed
  have T: "filter (\<lambda>u. UpdateOperation u = TOUCH \<and> UpdateTuple u = t) (changesOf (recordAt c R))
           = [\<lparr>UpdateOperation = TOUCH, UpdateTuple = t\<rparr>]"
  proof -
    have "filter (\<lambda>u. UpdateOperation u = TOUCH \<and> UpdateTuple u = t) (changesOf (recordAt c R))
        = filter (\<lambda>u. UpdateOperation u = TOUCH \<and> tuple_String (UpdateTuple u) = tuple_String t)
            (changesOf (recordAt c R))"
      using same by (intro filter_cong) auto
    then show ?thesis
      unfolding emitted_touches [OF st] by (simp add: v vt)
  qed
  have D: "filter (\<lambda>u. UpdateOperation u = DELETE \<and> UpdateTuple u = t) (changesOf (recordAt c R)) = []"
  proof -
    have "filter (\<lambda>u. UpdateOperation u = DELETE \<and> UpdateTuple u = t) (changesOf (recordAt c R))
        = filter (\<lambda>u. UpdateOperation u = DELETE \<and> tuple_String (UpdateTuple u) = tuple_String t)
            (changesOf (recordAt c R))"
      using same by (intro filter_cong) auto
    then show ?thesis
      unfolding emitted_deletes [OF st] by (simp add: nd)
  qed
  show ?thesis
    using uniq T D chg by (intro exI [of _ "revisionChangesOf c R"]) simp
qed

theorem touch_supersedes_delete_witness:
  "loadChanges (healthyPoll 5 touchDeleteRows) 3 =
     Some ([\<lparr>Revision = 5,
             Changes = [\<lparr>UpdateOperation = TOUCH, UpdateTuple = docViewerAlice\<rparr>]\<rparr>], 5, None)
   \<and> canonical (stagedEvents (healthyPoll 5 touchDeleteRows) 3)
   \<and> (5, docViewerAlice, TOUCH) \<in> set (stagedEvents (healthyPoll 5 touchDeleteRows) 3)
   \<and> (5, docViewerAlice, DELETE) \<in> set (stagedEvents (healthyPoll 5 touchDeleteRows) 3)
   \<and> (\<exists>rc. filter (\<lambda>x. Revision x = 5)
              [\<lparr>Revision = 5,
                Changes = [\<lparr>UpdateOperation = TOUCH, UpdateTuple = docViewerAlice\<rparr>]\<rparr>] = [rc]
         \<and> filter (\<lambda>u. UpdateOperation u = TOUCH \<and> UpdateTuple u = docViewerAlice) (Changes rc)
             = [\<lparr>UpdateOperation = TOUCH, UpdateTuple = docViewerAlice\<rparr>]
         \<and> filter (\<lambda>u. UpdateOperation u = DELETE \<and> UpdateTuple u = docViewerAlice) (Changes rc)
             = [])"
proof -
  have h1: "loadChanges (healthyPoll 5 touchDeleteRows) 3 =
     Some ([\<lparr>Revision = 5,
             Changes = [\<lparr>UpdateOperation = TOUCH, UpdateTuple = docViewerAlice\<rparr>]\<rparr>], 5, None)"
    by code_simp
  have ev: "stagedEvents (healthyPoll 5 touchDeleteRows) 3
            = [(5, docViewerAlice, DELETE), (5, docViewerAlice, TOUCH)]"
    by code_simp
  have h2: "(5, docViewerAlice, TOUCH) \<in> set (stagedEvents (healthyPoll 5 touchDeleteRows) 3)"
    and h3: "(5, docViewerAlice, DELETE) \<in> set (stagedEvents (healthyPoll 5 touchDeleteRows) 3)"
    unfolding ev by simp_all
  have u: "unambiguous docViewerAlice" by code_simp
  have h4: "canonical (stagedEvents (healthyPoll 5 touchDeleteRows) 3)"
    unfolding ev by (rule canonical_unambiguous) (simp add: u)
  from touch_supersedes_delete [OF h1 h4 h2 h3] obtain rc where
    r: "filter (\<lambda>x. Revision x = 5)
              [\<lparr>Revision = 5,
                Changes = [\<lparr>UpdateOperation = TOUCH, UpdateTuple = docViewerAlice\<rparr>]\<rparr>] = [rc]
         \<and> filter (\<lambda>u. UpdateOperation u = TOUCH \<and> UpdateTuple u = docViewerAlice) (Changes rc)
             = [\<lparr>UpdateOperation = TOUCH, UpdateTuple = docViewerAlice\<rparr>]
         \<and> filter (\<lambda>u. UpdateOperation u = DELETE \<and> UpdateTuple u = docViewerAlice) (Changes rc)
             = []"
    by blast
  show ?thesis
  proof (intro conjI)
    show "loadChanges (healthyPoll 5 touchDeleteRows) 3 =
     Some ([\<lparr>Revision = 5,
             Changes = [\<lparr>UpdateOperation = TOUCH, UpdateTuple = docViewerAlice\<rparr>]\<rparr>], 5, None)"
      by (fact h1)
    show "canonical (stagedEvents (healthyPoll 5 touchDeleteRows) 3)" by (fact h4)
    show "(5, docViewerAlice, TOUCH) \<in> set (stagedEvents (healthyPoll 5 touchDeleteRows) 3)"
      by (fact h2)
    show "(5, docViewerAlice, DELETE) \<in> set (stagedEvents (healthyPoll 5 touchDeleteRows) 3)"
      by (fact h3)
    show "\<exists>rc. filter (\<lambda>x. Revision x = 5)
              [\<lparr>Revision = 5,
                Changes = [\<lparr>UpdateOperation = TOUCH, UpdateTuple = docViewerAlice\<rparr>]\<rparr>] = [rc]
         \<and> filter (\<lambda>u. UpdateOperation u = TOUCH \<and> UpdateTuple u = docViewerAlice) (Changes rc)
             = [\<lparr>UpdateOperation = TOUCH, UpdateTuple = docViewerAlice\<rparr>]
         \<and> filter (\<lambda>u. UpdateOperation u = DELETE \<and> UpdateTuple u = docViewerAlice) (Changes rc)
             = []"
      using r by (rule exI)
  qed
qed

text \<open>
  C9. Let two sequences of \<open>TOUCH\<close> and \<open>DELETE\<close> events contain the same events, in any
  order and with any repetitions, the canonical string standing for the tuple as the spec
  has it. Folding each through \<open>addChange\<close> from the empty map succeeds, and the two
  results are the same change records: a record for the same revisions, with the same
  \<open>tupleTouches\<close> map and the same \<open>tupleDeletes\<close> map at every revision. Reordering the
  events or repeating one changes nothing.
\<close>

theorem addChange_order_independent:
  assumes "onlyTouchDelete es" and "canonical es" and "set es' = set es"
  shows "\<exists>c c'. addChanges es [] = Some c \<and> addChanges es' [] = Some c'
     \<and> (\<forall>R. (map_of c R = None) = (map_of c' R = None)
            \<and> touchesAt c R = touchesAt c' R
            \<and> deletesAt c R = deletesAt c' R)"
proof -
  from assms have otd': "onlyTouchDelete es'"
    by (simp add: onlyTouchDelete_def list_all_iff)
  from addChanges_total [OF assms(1)] obtain c where c: "addChanges es [] = Some c" by blast
  from addChanges_total [OF otd'] obtain c' where c': "addChanges es' [] = Some c'" by blast
  have tk: "touchKeys es' R = touchKeys es R" and dk: "deleteKeys es' R = deleteKeys es R" for R
    using assms(3) by (simp_all add: touchKeys_def deleteKeys_def)
  have keys: "(map_of c R = None) = (map_of c' R = None)" for R
    using staged_keys [OF c, of R] staged_keys [OF c', of R] assms(3) by auto
  have same: "m k = m' k"
    if d: "(m k \<noteq> None) = (m' k \<noteq> None)"
      and s: "\<And>v. m k = Some v \<Longrightarrow> tuple_String v = k \<and> (\<exists>op. (R, v, op) \<in> set es)"
      and s': "\<And>v. m' k = Some v \<Longrightarrow> tuple_String v = k \<and> (\<exists>op. (R, v, op) \<in> set es)"
    for m m' :: "string \<rightharpoonup> RelationTuple" and k R
  proof (cases "m k")
    case None
    with d show ?thesis by simp
  next
    case (Some v)
    with d obtain v' where v': "m' k = Some v'" by auto
    from s [OF Some] s' [OF v'] have "v' = v"
      using canonical_same_tuple [OF assms(2)] by metis
    with Some v' show ?thesis by simp
  qed
  have vT: "touchesAt c R = touchesAt c' R" for R
  proof (rule ext, rule same [where R = R])
    fix k
    show "(touchesAt c R k \<noteq> None) = (touchesAt c' R k \<noteq> None)"
      using staged_dom [OF c, of R k] staged_dom [OF c', of R k] tk [of R] by simp
    show "tuple_String v = k \<and> (\<exists>op. (R, v, op) \<in> set es)" if "touchesAt c R k = Some v" for v
      using staged_sound [OF c, of R k v] that by blast
    show "tuple_String v = k \<and> (\<exists>op. (R, v, op) \<in> set es)" if "touchesAt c' R k = Some v" for v
      using staged_sound [OF c', of R k v] that assms(3) by blast
  qed
  have vD: "deletesAt c R = deletesAt c' R" for R
  proof (rule ext, rule same [where R = R])
    fix k
    show "(deletesAt c R k \<noteq> None) = (deletesAt c' R k \<noteq> None)"
      using staged_dom [OF c, of R k] staged_dom [OF c', of R k] tk [of R] dk [of R] by simp
    show "tuple_String v = k \<and> (\<exists>op. (R, v, op) \<in> set es)" if "deletesAt c R k = Some v" for v
      using staged_sound [OF c, of R k v] that by blast
    show "tuple_String v = k \<and> (\<exists>op. (R, v, op) \<in> set es)" if "deletesAt c' R k = Some v" for v
      using staged_sound [OF c', of R k v] that assms(3) by blast
  qed
  show ?thesis
    using c c' keys vT vD by blast
qed

theorem addChange_order_independent_witness:
  "onlyTouchDelete [(1, docViewerAlice, TOUCH), (1, docViewerAlice, DELETE), (2::txn, docViewerBob, DELETE)]
   \<and> canonical [(1, docViewerAlice, TOUCH), (1, docViewerAlice, DELETE), (2::txn, docViewerBob, DELETE)]
   \<and> set [(2::txn, docViewerBob, DELETE), (1, docViewerAlice, DELETE), (1, docViewerAlice, TOUCH),
          (1, docViewerAlice, DELETE)]
       = set [(1, docViewerAlice, TOUCH), (1, docViewerAlice, DELETE), (2::txn, docViewerBob, DELETE)]
   \<and> (\<exists>c c'. addChanges [(1, docViewerAlice, TOUCH), (1, docViewerAlice, DELETE),
                          (2::txn, docViewerBob, DELETE)] [] = Some c
         \<and> addChanges [(2::txn, docViewerBob, DELETE), (1, docViewerAlice, DELETE),
                        (1, docViewerAlice, TOUCH), (1, docViewerAlice, DELETE)] [] = Some c'
         \<and> (\<forall>R. (map_of c R = None) = (map_of c' R = None)
                \<and> touchesAt c R = touchesAt c' R \<and> deletesAt c R = deletesAt c' R))"
proof -
  let ?es = "[(1, docViewerAlice, TOUCH), (1, docViewerAlice, DELETE), (2::txn, docViewerBob, DELETE)]"
  let ?es' = "[(2::txn, docViewerBob, DELETE), (1, docViewerAlice, DELETE), (1, docViewerAlice, TOUCH),
               (1, docViewerAlice, DELETE)]"
  have h1: "onlyTouchDelete ?es" by (simp add: onlyTouchDelete_def)
  have h2: "set ?es' = set ?es" by auto
  have u: "unambiguous docViewerAlice" "unambiguous docViewerBob" by code_simp+
  have h3: "canonical ?es"
    by (rule canonical_unambiguous) (simp add: u)
  show ?thesis
  proof (intro conjI)
    show "onlyTouchDelete ?es" by (fact h1)
    show "canonical ?es" by (fact h3)
    show "set ?es' = set ?es" by (fact h2)
    show "\<exists>c c'. addChanges ?es [] = Some c \<and> addChanges ?es' [] = Some c'
         \<and> (\<forall>R. (map_of c R = None) = (map_of c' R = None)
                \<and> touchesAt c R = touchesAt c' R \<and> deletesAt c R = deletesAt c' R)"
      by (rule addChange_order_independent [OF h1 h3 h2])
  qed
qed

section \<open>Properties of the watch loop\<close>

lemma emitted_consume: "emitted (consume c s) = emitted s"
  by (simp add: emitted_def consume_def)

lemma emitted_sendError: "emitted (sendError e s) = emitted s"
  by (simp add: emitted_def sendError_def)

lemma currentTxn_consume: "currentTxn (consume c s) = currentTxn s"
  by (simp add: consume_def)

lemma currentTxn_sendError: "currentTxn (sendError e s) = currentTxn s"
  by (simp add: sendError_def)

lemma errorsChan_consume: "errorsChan (consume c s) = errorsChan s"
  and status_consume: "status (consume c s) = status s"
  by (simp_all add: consume_def)

lemma sendError_empty:
  "errorsChan s = [] \<Longrightarrow>
   sendError e s = s\<lparr>errorsChan := [e], errorsClosed := True, updatesClosed := True,
                    status := Returned\<rparr>"
  by (simp add: sendError_def)

lemma writeStaged_emitted:
  "\<exists>k. emitted (writeStaged cap cs xs s) = emitted s @ take k xs"
proof (induction cap cs xs s rule: writeStaged.induct)
  case (1 capacity cs s)
  then show ?case by simp
next
  case (2 capacity cs x xs s)
  let ?c = "case cs of [] \<Rightarrow> \<lparr>taken = 0, waiting = False\<rparr> | c # _ \<Rightarrow> c"
  let ?cs' = "case cs of [] \<Rightarrow> [] | _ # cs' \<Rightarrow> cs'"
  let ?s1 = "consume ?c s"
  consider (handoff) "updates ?s1 = [] \<and> waiting ?c"
    | (room) "\<not> (updates ?s1 = [] \<and> waiting ?c)" "length (updates ?s1) < capacity"
    | (full) "\<not> (updates ?s1 = [] \<and> waiting ?c)" "\<not> length (updates ?s1) < capacity"
    by blast
  then show ?case
  proof cases
    case handoff
    from "2.IH"(1) [OF refl refl refl handoff]
    obtain k where "emitted (writeStaged capacity ?cs' xs (?s1\<lparr>received := received ?s1 @ [x]\<rparr>))
        = emitted (?s1\<lparr>received := received ?s1 @ [x]\<rparr>) @ take k xs" by blast
    moreover have "emitted (?s1\<lparr>received := received ?s1 @ [x]\<rparr>) = emitted s @ [x]"
      using handoff emitted_consume [of ?c s] by (simp add: emitted_def)
    ultimately have "emitted (writeStaged capacity cs (x # xs) s) = emitted s @ take (Suc k) (x # xs)"
      using handoff by (simp add: Let_def)
    then show ?thesis by blast
  next
    case room
    from "2.IH"(2) [OF refl refl refl room]
    obtain k where "emitted (writeStaged capacity ?cs' xs (?s1\<lparr>updates := updates ?s1 @ [x]\<rparr>))
        = emitted (?s1\<lparr>updates := updates ?s1 @ [x]\<rparr>) @ take k xs" by blast
    moreover have "emitted (?s1\<lparr>updates := updates ?s1 @ [x]\<rparr>) = emitted s @ [x]"
      using emitted_consume [of ?c s] by (simp add: emitted_def)
    ultimately have "emitted (writeStaged capacity cs (x # xs) s) = emitted s @ take (Suc k) (x # xs)"
      using room by (auto simp: Let_def)
    then show ?thesis by blast
  next
    case full
    then have "emitted (writeStaged capacity cs (x # xs) s) = emitted s @ take 0 (x # xs)"
      by (auto simp: Let_def emitted_sendError emitted_consume)
    then show ?thesis by blast
  qed
qed

lemma writeStaged_currentTxn: "currentTxn (writeStaged cap cs xs s) = currentTxn s"
  by (induction cap cs xs s rule: writeStaged.induct)
    (simp_all add: Let_def currentTxn_consume currentTxn_sendError)

lemma quiet_sendError: "quiet s \<Longrightarrow> status s = Running \<Longrightarrow> quiet (sendError e s) \<and> status (sendError e s) = Returned"
  by (simp add: quiet_def sendError_def)

lemma quiet_writeStaged:
  "quiet s \<Longrightarrow> status s = Running \<Longrightarrow> quiet (writeStaged cap cs xs s)"
proof (induction cap cs xs s rule: writeStaged.induct)
  case (1 capacity cs s)
  then show ?case by simp
next
  case (2 capacity cs x xs s)
  let ?c = "case cs of [] \<Rightarrow> \<lparr>taken = 0, waiting = False\<rparr> | c # _ \<Rightarrow> c"
  let ?s1 = "consume ?c s"
  have q1: "quiet ?s1" "status ?s1 = Running"
    using "2.prems" by (simp_all add: quiet_def consume_def)
  then have qa: "quiet (?s1\<lparr>received := r\<rparr>)" "status (?s1\<lparr>received := r\<rparr>) = Running"
    and qb: "quiet (?s1\<lparr>updates := u\<rparr>)" "status (?s1\<lparr>updates := u\<rparr>) = Running" for r u
    by (simp_all add: quiet_def)
  show ?case
    using "2.IH"(1) [OF refl refl refl _ qa] "2.IH"(2) [OF refl refl refl _ _ qb]
      quiet_sendError [OF q1]
    by (simp add: Let_def)
qed

lemma loadChanges_newRevision:
  "loadChanges db a = Some (chs, n, e) \<Longrightarrow> n = fst (loadRevisionResult db)"
  by (cases "loadRevisionResult db")
    (auto simp: loadChanges_def split: option.splits if_splits sum.splits)

lemma loadChanges_error: "loadChanges db a = Some (chs, n, Some e) \<Longrightarrow> chs = []"
  by (cases "loadRevisionResult db")
    (auto simp: loadChanges_def split: option.splits if_splits sum.splits)

lemma rowEvents_interval: "(R, t, op) \<in> set (rowEvents a n r) \<Longrightarrow> a < R \<and> R \<le> n"
  by (auto simp: rowEvents_def split: if_splits)

lemma stagedEvents_interval:
  "(R, t, op) \<in> set (stagedEvents db a) \<Longrightarrow> a < R \<and> R \<le> fst (loadRevisionResult db)"
  by (auto simp: stagedEvents_def Let_def dest: rowEvents_interval)

lemma Revision_revisionChangesOf: "map Revision (map (revisionChangesOf c) ks) = ks"
  by (induction ks) (simp_all add: revisionChangesOf_def)

lemma loadChanges_sorted:
  assumes "loadChanges db a = Some (chs, n, e)"
  shows "sorted_wrt (<) (map Revision chs) \<and> (\<forall>x\<in>set chs. a < Revision x \<and> Revision x \<le> n)"
proof (cases e)
  case (Some err)
  with assms loadChanges_error show ?thesis by fastforce
next
  case None
  from loadChanges_success [OF assms [unfolded None]] obtain c where
    st: "addChanges (stagedEvents db a) [] = Some c"
    and ch: "chs = map (revisionChangesOf c) (sort (map fst c))"
    and n: "n = fst (loadRevisionResult db)"
    by blast
  have wf: "wfChanges c" using wfChanges_addChanges [OF wfChanges_Nil st] .
  then have d: "distinct (map fst c)" by (simp add: wfChanges_def)
  have revs: "map Revision chs = sort (map fst c)"
    unfolding ch by (rule Revision_revisionChangesOf)
  have "sorted_wrt (<) (sort (map fst c))"
    using d by (simp add: strict_sorted_iff)
  moreover have "a < R \<and> R \<le> n" if "R \<in> set (sort (map fst c))" for R
  proof -
    from that have "map_of c R \<noteq> None" by (simp add: map_of_eq_None_iff)
    with staged_keys [OF st, of R] obtain t op where "(R, t, op) \<in> set (stagedEvents db a)"
      by blast
    from stagedEvents_interval [OF this] n show ?thesis by simp
  qed
  moreover have "Revision x \<in> set (map Revision chs)" if "x \<in> set chs" for x
    using that by simp
  ultimately show ?thesis unfolding revs [symmetric] by blast
qed

lemma quiet_watchLoop:
  "quiet s \<Longrightarrow> status s = Running \<Longrightarrow>
   status (watchLoop pgd polls s) \<noteq> Blocked
   \<and> (status (watchLoop pgd polls s) = Running \<longrightarrow> errorsChan (watchLoop pgd polls s) = [])"
proof (induction polls arbitrary: s)
  case Nil
  then show ?case by (simp add: quiet_def)
next
  case (Cons p ps)
  show ?case
  proof (cases "loadChanges (pollDatabase p) (currentTxn s)")
    case None
    then show ?thesis by simp
  next
    case (Some res)
    obtain chs n e where res: "res = (chs, n, e)" by (cases res)
    note lc = Some [unfolded res]
    let ?s1 = "s\<lparr>currentTxn := n\<rparr>"
    have q1: "quiet ?s1" "status ?s1 = Running"
      using Cons.prems by (simp_all add: quiet_def)
    show ?thesis
    proof (cases e)
      case (Some err)
      have "status (sendError (if ctxCanceled p then WatchCanceledErr else err) ?s1) = Returned"
        using quiet_sendError [OF q1] by simp
      with Some show ?thesis
        using lc by simp
    next
      case None
      define s2 where "s2 = writeStaged (watchBufferLength pgd) (consumer p) chs ?s1"
      have step: "watchLoop pgd (p # ps) s =
          (if status s2 \<noteq> Running then s2
           else if chs = [] \<and> canceledInSleep p then sendError WatchCanceledErr s2
           else watchLoop pgd ps s2)"
        using lc None by (simp add: Let_def s2_def)
      have q2: "quiet s2" unfolding s2_def by (rule quiet_writeStaged [OF q1])
      show ?thesis
      proof (cases "status s2 = Running")
        case True
        have ret: "status (sendError WatchCanceledErr s2) = Returned"
          using quiet_sendError [OF q2 True] by simp
        from Cons.IH [OF q2 True] ret show ?thesis
          unfolding step using True by simp
      next
        case False
        with q2 show ?thesis unfolding step by (simp add: quiet_def)
      qed
    qed
  qed
qed

lemma loadChanges_failed_load:
  "snd (loadRevisionResult db) = Some e \<Longrightarrow>
   loadChanges db a = Some ([], fst (loadRevisionResult db), Some e)"
  by (cases "loadRevisionResult db") (simp add: loadChanges_def)

lemma loadChanges_loaded:
  "loadChanges db a = Some (chs, n, None) \<Longrightarrow> snd (loadRevisionResult db) = None"
  by (cases "loadRevisionResult db")
    (auto simp: loadChanges_def split: option.splits if_splits sum.splits)

lemma watchLoop_sorted:
  assumes "sorted (map loadedRevision (filter loadSucceeded polls))"
    and "sorted_wrt (<) (map Revision (emitted s))"
    and "\<forall>x\<in>set (emitted s). Revision x \<le> currentTxn s"
    and "\<forall>x\<in>set (emitted s). \<forall>p\<in>set polls. loadSucceeded p \<longrightarrow> Revision x \<le> loadedRevision p"
  shows "sorted_wrt (<) (map Revision (emitted (watchLoop pgd polls s)))"
  using assms
proof (induction polls arbitrary: s)
  case Nil
  then show ?case by simp
next
  case (Cons p ps)
  show ?case
  proof (cases "loadChanges (pollDatabase p) (currentTxn s)")
    case None
    then show ?thesis using Cons.prems(2) by (simp add: emitted_def)
  next
    case (Some res)
    obtain chs n e where res: "res = (chs, n, e)" by (cases res)
    note lc = Some [unfolded res]
    have n: "n = loadedRevision p"
      using loadChanges_newRevision [OF lc] by (simp add: loadedRevision_def)
    note poll = loadChanges_sorted [OF lc]
    let ?s1 = "s\<lparr>currentTxn := n\<rparr>"
    have em1: "emitted ?s1 = emitted s" by (simp add: emitted_def)
    show ?thesis
    proof (cases e)
      case (Some err)
      then show ?thesis
        using lc Cons.prems(2) by (simp add: emitted_sendError em1)
    next
      case None
      have ok: "loadSucceeded p"
        using loadChanges_loaded [OF lc [unfolded None]] by (simp add: loadSucceeded_def)
      define s2 where "s2 = writeStaged (watchBufferLength pgd) (consumer p) chs ?s1"
      have step: "watchLoop pgd (p # ps) s =
          (if status s2 \<noteq> Running then s2
           else if chs = [] \<and> canceledInSleep p then sendError WatchCanceledErr s2
           else watchLoop pgd ps s2)"
        using lc None by (simp add: Let_def s2_def)
      from writeStaged_emitted [of "watchBufferLength pgd" "consumer p" chs ?s1]
      obtain k where k: "emitted s2 = emitted s @ take k chs" unfolding em1 s2_def by blast
      have new: "currentTxn s < Revision y \<and> Revision y \<le> n" if "y \<in> set (take k chs)" for y
        using poll that by (meson in_set_takeD)
      have old: "Revision x \<le> currentTxn s" "Revision x \<le> n" if "x \<in> set (emitted s)" for x
        using Cons.prems(3,4) that n ok by simp_all
      have "sorted_wrt (<) (map Revision (take k chs))"
        using poll by (simp add: take_map [symmetric] sorted_wrt_take)
      then have sorted2: "sorted_wrt (<) (map Revision (emitted s2))"
        unfolding k using Cons.prems(2) old(1) new
        by (fastforce simp: sorted_wrt_append)
      have cur2: "currentTxn s2 = n" by (simp add: writeStaged_currentTxn s2_def)
      have le2: "\<forall>x\<in>set (emitted s2). Revision x \<le> currentTxn s2"
        unfolding cur2 k using old(2) new by auto
      have srt: "sorted (loadedRevision p # map loadedRevision (filter loadSucceeded ps))"
        using Cons.prems(1) ok by simp
      then have mono: "\<forall>p'\<in>set ps. loadSucceeded p' \<longrightarrow> n \<le> loadedRevision p'"
        using n by auto
      have fut2: "\<forall>x\<in>set (emitted s2). \<forall>p'\<in>set ps. loadSucceeded p' \<longrightarrow> Revision x \<le> loadedRevision p'"
        unfolding k using Cons.prems(4) new mono by fastforce
      have rest: "sorted_wrt (<) (map Revision (emitted (watchLoop pgd ps s2)))"
        using Cons.IH [OF _ sorted2 le2 fut2] srt by simp
      show ?thesis
        unfolding step using rest sorted2 by (simp add: emitted_sendError)
    qed
  qed
qed

lemma status_sendError_not_Running: "status (sendError e s) \<noteq> Running"
  by (simp add: sendError_def)

lemma stepAt_0: "stepAt cs 0 = (case cs of [] \<Rightarrow> \<lparr>taken = 0, waiting = False\<rparr> | c # _ \<Rightarrow> c)"
  by (cases cs) (simp_all add: stepAt_def)

lemma stepAt_Suc: "stepAt cs (Suc i) = stepAt (case cs of [] \<Rightarrow> [] | _ # cs' \<Rightarrow> cs') i"
  by (cases cs) (simp_all add: stepAt_def)

lemma writeStaged_Cons:
  "writeStaged capacity cs (x # xs) s =
     (if updates (consume (stepAt cs 0) s) = [] \<and> waiting (stepAt cs 0)
      then writeStaged capacity (case cs of [] \<Rightarrow> [] | _ # cs' \<Rightarrow> cs') xs
             ((consume (stepAt cs 0) s)\<lparr>received := received (consume (stepAt cs 0) s) @ [x]\<rparr>)
      else if length (updates (consume (stepAt cs 0) s)) < capacity
      then writeStaged capacity (case cs of [] \<Rightarrow> [] | _ # cs' \<Rightarrow> cs') xs
             ((consume (stepAt cs 0) s)\<lparr>updates := updates (consume (stepAt cs 0) s) @ [x]\<rparr>)
      else sendError WatchDisconnectedErr (consume (stepAt cs 0) s))"
  by (simp add: Let_def stepAt_0)

lemma writeStaged_full:
  assumes "wouldBlock capacity (stepAt cs 0) s" and "errorsChan s = []"
  shows "writeStaged capacity cs (x # xs) s =
     (consume (stepAt cs 0) s)\<lparr>errorsChan := [WatchDisconnectedErr], errorsClosed := True,
                                updatesClosed := True, status := Returned\<rparr>"
proof -
  from assms(1) have "\<not> (updates (consume (stepAt cs 0) s) = [] \<and> waiting (stepAt cs 0))"
    and "\<not> length (updates (consume (stepAt cs 0) s)) < capacity"
    by (simp_all add: wouldBlock_def)
  then have "writeStaged capacity cs (x # xs) s = sendError WatchDisconnectedErr (consume (stepAt cs 0) s)"
    unfolding writeStaged_Cons by auto
  then show ?thesis
    using assms(2) by (simp add: sendError_empty errorsChan_consume)
qed

lemma writeStaged_through:
  "status (writeStaged capacity cs xs s) = Running \<Longrightarrow>
     writeStaged capacity cs (xs @ ys) s
       = writeStaged capacity (drop (length xs) cs) ys (writeStaged capacity cs xs s)
   \<and> emitted (writeStaged capacity cs xs s) = emitted s @ xs
   \<and> errorsChan (writeStaged capacity cs xs s) = errorsChan s
   \<and> stepAt (drop (length xs) cs) 0 = stepAt cs (length xs)"
proof (induction xs arbitrary: cs s)
  case Nil
  then show ?case by (simp add: stepAt_def)
next
  case (Cons x xs)
  let ?c = "stepAt cs 0"
  let ?cs' = "case cs of [] \<Rightarrow> [] | _ # cs' \<Rightarrow> cs'"
  let ?s1 = "consume ?c s"
  have dr: "drop (length (x # xs)) cs = drop (length xs) ?cs'"
    by (cases cs) simp_all
  have sa: "stepAt cs (length (x # xs)) = stepAt ?cs' (length xs)"
    by (simp add: stepAt_Suc)
  consider (handoff) "updates ?s1 = [] \<and> waiting ?c"
    | (room) "\<not> (updates ?s1 = [] \<and> waiting ?c)" "length (updates ?s1) < capacity"
    | (full) "\<not> (updates ?s1 = [] \<and> waiting ?c)" "\<not> length (updates ?s1) < capacity"
    by blast
  then show ?case
  proof cases
    case handoff
    let ?s2 = "?s1\<lparr>received := received ?s1 @ [x]\<rparr>"
    have u: "writeStaged capacity cs ((x # xs) @ ys) s = writeStaged capacity ?cs' (xs @ ys) ?s2"
      "writeStaged capacity cs (x # xs) s = writeStaged capacity ?cs' xs ?s2"
      using handoff by (simp_all add: writeStaged_Cons del: writeStaged.simps)
    from Cons.prems have r: "status (writeStaged capacity ?cs' xs ?s2) = Running"
      unfolding u(2) .
    have e: "emitted ?s2 = emitted s @ [x]" "errorsChan ?s2 = errorsChan s"
      using handoff emitted_consume [of ?c s] by (simp_all add: emitted_def errorsChan_consume)
    from Cons.IH [OF r] show ?thesis
      unfolding u dr sa by (simp add: e)
  next
    case room
    let ?s2 = "?s1\<lparr>updates := updates ?s1 @ [x]\<rparr>"
    have u: "writeStaged capacity cs ((x # xs) @ ys) s = writeStaged capacity ?cs' (xs @ ys) ?s2"
      "writeStaged capacity cs (x # xs) s = writeStaged capacity ?cs' xs ?s2"
      using room by (auto simp: writeStaged_Cons simp del: writeStaged.simps)
    from Cons.prems have r: "status (writeStaged capacity ?cs' xs ?s2) = Running"
      unfolding u(2) .
    have e: "emitted ?s2 = emitted s @ [x]" "errorsChan ?s2 = errorsChan s"
      using emitted_consume [of ?c s] by (simp_all add: emitted_def errorsChan_consume)
    from Cons.IH [OF r] show ?thesis
      unfolding u dr sa by (simp add: e)
  next
    case full
    then have "writeStaged capacity cs (x # xs) s = sendError WatchDisconnectedErr ?s1"
      by (auto simp: writeStaged_Cons simp del: writeStaged.simps)
    with Cons.prems status_sendError_not_Running show ?thesis by simp
  qed
qed

lemma watchLoop_append:
  "status s = Running \<Longrightarrow>
   watchLoop pgd (ps @ qs) s =
     (if status (watchLoop pgd ps s) = Running then watchLoop pgd qs (watchLoop pgd ps s)
      else watchLoop pgd ps s)"
proof (induction ps arbitrary: s)
  case Nil
  then show ?case by simp
next
  case (Cons p ps)
  show ?case
  proof (cases "loadChanges (pollDatabase p) (currentTxn s)")
    case None
    then show ?thesis by simp
  next
    case (Some res)
    obtain chs n e where res: "res = (chs, n, e)" by (cases res)
    note lc = Some [unfolded res]
    show ?thesis
    proof (cases e)
      case (Some err)
      with lc show ?thesis by (simp add: status_sendError_not_Running)
    next
      case None
      define s2 where "s2 = writeStaged (watchBufferLength pgd) (consumer p) chs (s\<lparr>currentTxn := n\<rparr>)"
      have step: "watchLoop pgd (p # rs) s =
          (if status s2 \<noteq> Running then s2
           else if chs = [] \<and> canceledInSleep p then sendError WatchCanceledErr s2
           else watchLoop pgd rs s2)" for rs
        using lc None by (simp add: Let_def s2_def)
      show ?thesis
      proof (cases "status s2 = Running")
        case True
        show ?thesis
        proof (cases "chs = [] \<and> canceledInSleep p")
          case c: True
          have "watchLoop pgd ((p # ps) @ qs) s = sendError WatchCanceledErr s2"
            "watchLoop pgd (p # ps) s = sendError WatchCanceledErr s2"
            using True c step [of "ps @ qs"] step [of ps] by simp_all
          then show ?thesis by (simp add: status_sendError_not_Running)
        next
          case c: False
          have "watchLoop pgd ((p # ps) @ qs) s = watchLoop pgd (ps @ qs) s2"
            "watchLoop pgd (p # ps) s = watchLoop pgd ps s2"
            using True c step [of "ps @ qs"] step [of ps] by auto
          with Cons.IH [OF True] show ?thesis by simp
        qed
      next
        case False
        have "watchLoop pgd ((p # ps) @ qs) s = s2" "watchLoop pgd (p # ps) s = s2"
          using False step [of "ps @ qs"] step [of ps] by simp_all
        with False show ?thesis by simp
      qed
    qed
  qed
qed

text \<open>
  C4. The records of one poll come out of \<open>loadChanges\<close> with strictly increasing
  revisions, all of them in the polled interval \<open>(afterRevision, newRevision]\<close>. With a
  transaction counter that never decreases, the revisions of all records sent on the
  channel during one subscription, in the order of sending, are strictly increasing:
  every record of a later poll has a greater revision than every record of an earlier
  one.
\<close>

theorem watch_revisions_increasing:
  "(loadChanges db afterRevision = Some (changes, newRevision, err) \<longrightarrow>
      sorted_wrt (<) (map Revision changes)
      \<and> (\<forall>x\<in>set changes. afterRevision < Revision x \<and> Revision x \<le> newRevision))
   \<and> (counterMonotone polls \<longrightarrow>
        sorted_wrt (<) (map Revision (emitted (Watch pgd startRevision polls))))"
proof -
  have "sorted_wrt (<) (map Revision (emitted (Watch pgd startRevision polls)))"
    if "counterMonotone polls"
    unfolding Watch_def
    by (rule watchLoop_sorted) (use that in \<open>simp_all add: counterMonotone_def emitted_def\<close>)
  with loadChanges_sorted show ?thesis by blast
qed

theorem watch_revisions_increasing_witness:
  "counterMonotone examplePolls
   \<and> loadChanges (healthyPoll 7 fourWrites) 3 =
       Some ([\<lparr>Revision = 4, Changes = [\<lparr>UpdateOperation = TOUCH, UpdateTuple = docViewerAlice\<rparr>]\<rparr>,
              \<lparr>Revision = 5, Changes = [\<lparr>UpdateOperation = TOUCH, UpdateTuple = docViewerBob\<rparr>]\<rparr>,
              \<lparr>Revision = 6, Changes = [\<lparr>UpdateOperation = TOUCH,
                 UpdateTuple = mkTuple ''document'' ''doc2'' ''viewer'' ''user'' ''alice'' ''...''\<rparr>]\<rparr>,
              \<lparr>Revision = 7, Changes = [\<lparr>UpdateOperation = DELETE, UpdateTuple = docViewerAlice\<rparr>]\<rparr>],
             7, None)
   \<and> map Revision (emitted (Watch \<lparr>splitAtEstimatedQuerySize = 8, watchBufferLength = 10\<rparr> 3
         examplePolls)) = [4, 5, 6, 7]
   \<and> sorted_wrt (<) (map Revision (emitted
         (Watch \<lparr>splitAtEstimatedQuerySize = 8, watchBufferLength = 10\<rparr> 3 examplePolls)))"
proof -
  have h: "counterMonotone examplePolls" by code_simp
  have l: "loadChanges (healthyPoll 7 fourWrites) 3 =
       Some ([\<lparr>Revision = 4, Changes = [\<lparr>UpdateOperation = TOUCH, UpdateTuple = docViewerAlice\<rparr>]\<rparr>,
              \<lparr>Revision = 5, Changes = [\<lparr>UpdateOperation = TOUCH, UpdateTuple = docViewerBob\<rparr>]\<rparr>,
              \<lparr>Revision = 6, Changes = [\<lparr>UpdateOperation = TOUCH,
                 UpdateTuple = mkTuple ''document'' ''doc2'' ''viewer'' ''user'' ''alice'' ''...''\<rparr>]\<rparr>,
              \<lparr>Revision = 7, Changes = [\<lparr>UpdateOperation = DELETE, UpdateTuple = docViewerAlice\<rparr>]\<rparr>],
             7, None)"
    by code_simp
  have e: "map Revision (emitted (Watch \<lparr>splitAtEstimatedQuerySize = 8, watchBufferLength = 10\<rparr> 3
         examplePolls)) = [4, 5, 6, 7]"
    by code_simp
  from watch_revisions_increasing [of "healthyPoll 7 fourWrites" 3 _ 7 None examplePolls
      "\<lparr>splitAtEstimatedQuerySize = 8, watchBufferLength = 10\<rparr>" 3] h l e
  show ?thesis by blast
qed

text \<open>
  C5. Take a subscription that is running after some polls, and a next poll in which the
  engine has sent the records \<open>sent\<close> and tries to send \<open>changeToWrite\<close> while the send
  would block: the consumer is not waiting in a receive and the queue holds
  \<open>watchBufferLength\<close> records. Then the engine sends \<open>WatchDisconnected\<close> on the error
  channel at once, closes both channels and returns: this is the final state of the
  subscription whatever polls might have followed, and neither \<open>changeToWrite\<close> nor any
  later record is sent. In no run at all does the engine reach a blocked state.
\<close>

theorem watch_backpressure:
  assumes "Watch pgd afterRevision polls = s" and "status s = Running"
    and "loadChanges (pollDatabase p) (currentTxn s)
           = Some (sent @ changeToWrite # notSent, newTxn, None)"
    and "writeStaged (watchBufferLength pgd) (consumer p) sent (s\<lparr>currentTxn := newTxn\<rparr>) = s'"
    and "status s' = Running"
    and "wouldBlock (watchBufferLength pgd) (stepAt (consumer p) (length sent)) s'"
  shows "Watch pgd afterRevision (polls @ p # later)
           = (consume (stepAt (consumer p) (length sent)) s')
               \<lparr>errorsChan := [WatchDisconnectedErr], errorsClosed := True,
                updatesClosed := True, status := Returned\<rparr>
     \<and> emitted (Watch pgd afterRevision (polls @ p # later)) = emitted s @ sent
     \<and> status (Watch pgd' afterRevision' polls') \<noteq> Blocked"
proof -
  let ?init = "\<lparr>currentTxn = transactionFromRevision afterRevision, updates = [], received = [],
        errorsChan = [], updatesClosed = False, errorsClosed = False, status = Running\<rparr>"
  let ?s1 = "s\<lparr>currentTxn := newTxn\<rparr>"
  let ?c = "stepAt (consumer p) (length sent)"
  let ?end = "(consume ?c s')\<lparr>errorsChan := [WatchDisconnectedErr], errorsClosed := True,
                updatesClosed := True, status := Returned\<rparr>"
  have s: "watchLoop pgd polls ?init = s" using assms(1) by (simp add: Watch_def)
  have q: "quiet ?init" "status ?init = Running" by (simp_all add: quiet_def)
  from quiet_watchLoop [OF q, of pgd polls] assms(2) have es: "errorsChan s = []"
    unfolding s by simp
  have run: "Watch pgd afterRevision (polls @ p # later) = watchLoop pgd (p # later) s"
    unfolding Watch_def using watchLoop_append [OF q(2), of pgd polls "p # later"] assms(2)
    by (simp add: s)
  from assms(4,5) have r: "status (writeStaged (watchBufferLength pgd) (consumer p) sent ?s1) = Running"
    by simp
  note th = writeStaged_through [OF r, of "changeToWrite # notSent"]
  have e': "errorsChan s' = []" "emitted s' = emitted s @ sent"
    using th assms(4) es by (simp_all add: emitted_def)
  have blk: "wouldBlock (watchBufferLength pgd)
      (stepAt (drop (length sent) (consumer p)) 0) s'"
    using th assms(6) by simp
  have w: "writeStaged (watchBufferLength pgd) (consumer p) (sent @ changeToWrite # notSent) ?s1 = ?end"
    using th writeStaged_full [OF blk e'(1), of changeToWrite notSent] assms(4) by simp
  have "watchLoop pgd (p # later) s = ?end"
    using assms(3) w by (simp add: Let_def)
  with run have fin: "Watch pgd afterRevision (polls @ p # later) = ?end" by simp
  moreover have "emitted ?end = emitted s @ sent"
    using e'(2) emitted_consume [of ?c s'] by (simp add: emitted_def)
  moreover have "status (Watch pgd' afterRevision' polls') \<noteq> Blocked"
    unfolding Watch_def using quiet_watchLoop [of _ pgd' polls'] by (simp add: quiet_def)
  ultimately show ?thesis by simp
qed

theorem watch_backpressure_witness:
  "status (Watch smallBuffer 3 []) = Running
   \<and> loadChanges (pollDatabase (quietPoll 5 fourWrites)) (currentTxn (Watch smallBuffer 3 []))
       = Some ([touchAlice4] @ touchBob5 # [], 5, None)
   \<and> status (writeStaged (watchBufferLength smallBuffer) (consumer (quietPoll 5 fourWrites))
         [touchAlice4] ((Watch smallBuffer 3 [])\<lparr>currentTxn := 5\<rparr>)) = Running
   \<and> wouldBlock (watchBufferLength smallBuffer)
         (stepAt (consumer (quietPoll 5 fourWrites)) (length [touchAlice4]))
         (writeStaged (watchBufferLength smallBuffer) (consumer (quietPoll 5 fourWrites))
            [touchAlice4] ((Watch smallBuffer 3 [])\<lparr>currentTxn := 5\<rparr>))
   \<and> status (Watch smallBuffer 3 ([] @ quietPoll 5 fourWrites # [quietPoll 7 fourWrites]))
       = Returned
   \<and> errorsChan (Watch smallBuffer 3 ([] @ quietPoll 5 fourWrites # [quietPoll 7 fourWrites]))
       = [WatchDisconnectedErr]
   \<and> emitted (Watch smallBuffer 3 ([] @ quietPoll 5 fourWrites # [quietPoll 7 fourWrites]))
       = [touchAlice4]"
proof -
  let ?s = "Watch smallBuffer 3 []"
  let ?p = "quietPoll 5 fourWrites"
  let ?s' = "writeStaged (watchBufferLength smallBuffer) (consumer ?p) [touchAlice4]
               (?s\<lparr>currentTxn := 5\<rparr>)"
  have a: "status ?s = Running" by code_simp
  have b: "loadChanges (pollDatabase ?p) (currentTxn ?s) = Some ([touchAlice4] @ touchBob5 # [], 5, None)"
    by code_simp
  have c: "status ?s' = Running" by code_simp
  have d: "wouldBlock (watchBufferLength smallBuffer) (stepAt (consumer ?p) (length [touchAlice4])) ?s'"
    by code_simp
  have e: "emitted ?s = []" by code_simp
  note th = watch_backpressure [OF refl a b refl c d, of "[quietPoll 7 fourWrites]"]
  note th1 = th [THEN conjunct1]
  have f: "status (Watch smallBuffer 3 ([] @ ?p # [quietPoll 7 fourWrites])) = Returned"
    "errorsChan (Watch smallBuffer 3 ([] @ ?p # [quietPoll 7 fourWrites])) = [WatchDisconnectedErr]"
    by (subst th1, simp)+
  have g: "emitted (Watch smallBuffer 3 ([] @ ?p # [quietPoll 7 fourWrites])) = [touchAlice4]"
    using th [THEN conjunct2, THEN conjunct1] unfolding e by (simp only: append_Nil)
  show ?thesis
    using a b c d f g by (intro conjI)
qed

section \<open>The schema service\<close>

text \<open>
  A compiled namespace definition, as far as the schema service looks at it: its name
  and the names of its relations.
\<close>

record NamespaceDefinition =
  Name :: string
  NamespaceRelations :: "string list"

datatype PrefixRequiredOption = PrefixNotRequired | PrefixRequired

text \<open>The calls that \<open>WriteSchema\<close> makes, recorded in the order in which it makes them.\<close>

datatype schemaStep =
    StepCompile
  | StepBuildTypeSystem string
  | StepValidate string
  | StepSanityCheck string
  | StepWriteNamespace string

text \<open>
  The schema service calls into packages outside the files at hand: the namespace manager,
  the schema compiler, the type system (\<open>BuildNamespaceTypeSystemWithFallback\<close> and
  \<open>Validate\<close>), \<open>SanityCheckExistingRelationships\<close> and the datastore's
  \<open>WriteNamespace\<close>. They are parameters of the model, over any datastore state \<open>'ds\<close>.
  Modelled from the spec: the type system and the sanity check read the datastore (the
  spec has the check read at a snapshot revision), so they return an error or nothing and
  no new state; \<open>WriteNamespace\<close> returns an error or the state with the definition stored.
\<close>

record 'ds schemaCollaborators =
  newNamespaceManager :: "'ds \<Rightarrow> error option"
  compile :: "string \<Rightarrow> string option \<Rightarrow> error + NamespaceDefinition list"
  buildTypeSystem :: "'ds \<Rightarrow> NamespaceDefinition \<Rightarrow> NamespaceDefinition list \<Rightarrow> error option"
  validate :: "'ds \<Rightarrow> NamespaceDefinition \<Rightarrow> NamespaceDefinition list \<Rightarrow> error option"
  sanityCheck :: "'ds \<Rightarrow> NamespaceDefinition \<Rightarrow> error option"
  writeNamespace :: "'ds \<Rightarrow> NamespaceDefinition \<Rightarrow> error + 'ds"

definition rewriteError :: "error \<Rightarrow> error" where
  "rewriteError err =
     (case err of
        UnknownNamespaceError n \<Rightarrow>
          StatusError NotFound (''Object Definition `'' @ n @ ''` not found'')
      | ErrorWithContext msg \<Rightarrow> StatusError InvalidArgument msg
      | ErrReadOnly \<Rightarrow> ErrServiceReadOnly
      | _ \<Rightarrow> err)"

fun validateAll ::
  "'ds schemaCollaborators \<Rightarrow> 'ds \<Rightarrow> NamespaceDefinition list \<Rightarrow> NamespaceDefinition list
   \<Rightarrow> error option \<times> schemaStep list" where
  "validateAll env ds nsdefs [] = (None, [])"
| "validateAll env ds nsdefs (nsdef # rest) =
     (case buildTypeSystem env ds nsdef nsdefs of
        Some err \<Rightarrow> (Some err, [StepBuildTypeSystem (Name nsdef)])
      | None \<Rightarrow>
          (case validate env ds nsdef nsdefs of
             Some err \<Rightarrow> (Some err, [StepBuildTypeSystem (Name nsdef), StepValidate (Name nsdef)])
           | None \<Rightarrow>
               (case sanityCheck env ds nsdef of
                  Some err \<Rightarrow>
                    (Some err, [StepBuildTypeSystem (Name nsdef), StepValidate (Name nsdef),
                                StepSanityCheck (Name nsdef)])
                | None \<Rightarrow>
                    (case validateAll env ds nsdefs rest of
                       (r, steps) \<Rightarrow>
                         (r, [StepBuildTypeSystem (Name nsdef), StepValidate (Name nsdef),
                              StepSanityCheck (Name nsdef)] @ steps)))))"

fun writeAll ::
  "'ds schemaCollaborators \<Rightarrow> 'ds \<Rightarrow> NamespaceDefinition list \<Rightarrow> string list
   \<Rightarrow> (error + string list) \<times> 'ds \<times> schemaStep list" where
  "writeAll env ds [] names = (Inr names, ds, [])"
| "writeAll env ds (nsdef # rest) names =
     (case writeNamespace env ds nsdef of
        Inl err \<Rightarrow> (Inl (rewriteError err), ds, [StepWriteNamespace (Name nsdef)])
      | Inr ds' \<Rightarrow>
          (case writeAll env ds' rest (names @ [Name nsdef]) of
             (r, ds'', steps) \<Rightarrow> (r, ds'', StepWriteNamespace (Name nsdef) # steps)))"

definition WriteSchema ::
  "'ds schemaCollaborators \<Rightarrow> PrefixRequiredOption \<Rightarrow> 'ds \<Rightarrow> string
   \<Rightarrow> (error + string list) \<times> 'ds \<times> schemaStep list" where
  "WriteSchema env prefixRequired ds schemaString =
     (case newNamespaceManager env ds of
        Some err \<Rightarrow> (Inl (rewriteError err), ds, [])
      | None \<Rightarrow>
          (let prefix = (if prefixRequired = PrefixNotRequired then Some '''' else None)
           in case compile env schemaString prefix of
                Inl err \<Rightarrow> (Inl (rewriteError err), ds, [StepCompile])
              | Inr nsdefs \<Rightarrow>
                  (case validateAll env ds nsdefs nsdefs of
                     (Some err, checks) \<Rightarrow> (Inl (rewriteError err), ds, StepCompile # checks)
                   | (None, checks) \<Rightarrow>
                       (case writeAll env ds nsdefs [] of
                          (r, ds', writes) \<Rightarrow> (r, ds', StepCompile # checks @ writes)))))"

text \<open>Notions used to state the properties of \<open>WriteSchema\<close>.\<close>

fun isWrite :: "schemaStep \<Rightarrow> bool" where
  "isWrite (StepWriteNamespace n) = True"
| "isWrite _ = False"

fun firstError :: "error option list \<Rightarrow> error option" where
  "firstError [] = None"
| "firstError (Some e # rest) = Some e"
| "firstError (None # rest) = firstError rest"

definition checksOf ::
  "'ds schemaCollaborators \<Rightarrow> 'ds \<Rightarrow> NamespaceDefinition list \<Rightarrow> NamespaceDefinition
   \<Rightarrow> error option list" where
  "checksOf env ds nsdefs nsdef =
     [buildTypeSystem env ds nsdef nsdefs, validate env ds nsdef nsdefs, sanityCheck env ds nsdef]"

fun writesOf :: "'ds schemaCollaborators \<Rightarrow> 'ds \<Rightarrow> NamespaceDefinition list \<Rightarrow> error + 'ds" where
  "writesOf env ds [] = Inr ds"
| "writesOf env ds (nsdef # rest) =
     (case writeNamespace env ds nsdef of
        Inl err \<Rightarrow> Inl err
      | Inr ds' \<Rightarrow> writesOf env ds' rest)"

definition prefixOf :: "PrefixRequiredOption \<Rightarrow> string option" where
  "prefixOf prefixRequired = (if prefixRequired = PrefixNotRequired then Some '''' else None)"

definition documentDef :: NamespaceDefinition where
  "documentDef = \<lparr>Name = ''document'', NamespaceRelations = [''editor'']\<rparr>"

definition folderDef :: NamespaceDefinition where
  "folderDef = \<lparr>Name = ''folder'', NamespaceRelations = [''viewer'']\<rparr>"

type_synonym namespaceStore = "(string \<times> NamespaceDefinition) list"

definition storeNamespace :: "namespaceStore \<Rightarrow> NamespaceDefinition \<Rightarrow> error + namespaceStore" where
  "storeNamespace ds nsdef = Inr (AList.update (Name nsdef) nsdef ds)"

definition failingFolderWrite :: "namespaceStore \<Rightarrow> NamespaceDefinition \<Rightarrow> error + namespaceStore" where
  "failingFolderWrite ds nsdef =
     (if Name nsdef = ''folder'' then Inl (OtherError ''connection reset'')
      else storeNamespace ds nsdef)"

definition twoDefinitions :: "namespaceStore schemaCollaborators" where
  "twoDefinitions =
     \<lparr>newNamespaceManager = (\<lambda>ds. None),
      compile = (\<lambda>schemaString prefix. Inr [documentDef, folderDef]),
      buildTypeSystem = (\<lambda>ds nsdef nsdefs. None),
      validate = (\<lambda>ds nsdef nsdefs. None),
      sanityCheck = (\<lambda>ds nsdef. None),
      writeNamespace = storeNamespace\<rparr>"

definition viewerInUse :: "namespaceStore \<Rightarrow> NamespaceDefinition \<Rightarrow> error option" where
  "viewerInUse ds nsdef =
     (if Name nsdef = ''document'' \<and> ''viewer'' \<notin> set (NamespaceRelations nsdef)
      then Some (StatusError InvalidArgument ''cannot delete relation `viewer`'')
      else None)"

section \<open>Properties of the schema service\<close>

lemma validateAll_firstError:
  "fst (validateAll env ds nsdefs ds') = firstError (concat (map (checksOf env ds nsdefs) ds'))"
  by (induction ds') (auto simp: checksOf_def split: option.splits prod.splits)

lemma validateAll_no_write: "\<not> list_ex isWrite (snd (validateAll env ds nsdefs ds'))"
  by (induction ds') (auto split: option.splits prod.splits)

lemma writeAll_only_writes:
  "writeAll env ds ds' names = (r, dsEnd, steps) \<Longrightarrow> list_all isWrite steps"
proof (induction ds' arbitrary: ds names r dsEnd steps)
  case Nil
  then show ?case by simp
next
  case (Cons d ds')
  show ?case
  proof (cases "writeNamespace env ds d")
    case (Inl err)
    with Cons.prems show ?thesis by auto
  next
    case (Inr ds1)
    obtain r' e' st' where w: "writeAll env ds1 ds' (names @ [Name d]) = (r', e', st')"
      by (cases "writeAll env ds1 ds' (names @ [Name d])")
    from Cons.IH [OF w] Cons.prems Inr w show ?thesis by auto
  qed
qed

lemma firstError_None: "(firstError xs = None) = (\<forall>x\<in>set xs. x = None)"
  by (induction xs rule: firstError.induct) auto

lemma writeAll_success:
  "writesOf env ds ds' = Inr dsEnd \<Longrightarrow>
   writeAll env ds ds' names =
     (Inr (names @ map Name ds'), dsEnd, map (\<lambda>d. StepWriteNamespace (Name d)) ds')"
  by (induction ds' arbitrary: ds names) (auto split: sum.splits)

lemma writeAll_failure:
  "writesOf env ds pre = Inr ds1 \<Longrightarrow> writeNamespace env ds1 d = Inl err \<Longrightarrow>
   writeAll env ds (pre @ d # post) names =
     (Inl (rewriteError err), ds1, map (\<lambda>d. StepWriteNamespace (Name d)) (pre @ [d]))"
  by (induction pre arbitrary: ds names) (auto split: sum.splits)

lemma WriteSchema_steps:
  assumes "WriteSchema env prefixRequired ds schemaString = (result, ds', steps)"
  shows "\<exists>checks writes. steps = checks @ writes \<and> \<not> list_ex isWrite checks
           \<and> list_all isWrite writes"
proof (cases "newNamespaceManager env ds")
  case (Some err)
  with assms have "steps = [] @ []" by (simp add: WriteSchema_def)
  then show ?thesis by (intro exI [of _ "[]"]) simp
next
  case None
  show ?thesis
  proof (cases "compile env schemaString (prefixOf prefixRequired)")
    case (Inl err)
    with assms None have "steps = [StepCompile] @ []"
      by (simp add: WriteSchema_def prefixOf_def)
    then show ?thesis by (intro exI [of _ "[StepCompile]"] exI [of _ "[]"]) simp
  next
    case (Inr nsdefs)
    obtain v checks where v: "validateAll env ds nsdefs nsdefs = (v, checks)"
      by (cases "validateAll env ds nsdefs nsdefs")
    have nw: "\<not> list_ex isWrite checks"
      using validateAll_no_write [of env ds nsdefs nsdefs] v by simp
    show ?thesis
    proof (cases v)
      case (Some err)
      with assms None Inr v have "steps = (StepCompile # checks) @ []"
        by (simp add: WriteSchema_def prefixOf_def)
      with nw show ?thesis by (intro exI [of _ "StepCompile # checks"] exI [of _ "[]"]) simp
    next
      case vNone: None
      obtain r dsEnd writes where w: "writeAll env ds nsdefs [] = (r, dsEnd, writes)"
        by (cases "writeAll env ds nsdefs []")
      from assms None Inr v vNone w have "steps = (StepCompile # checks) @ writes"
        by (simp add: WriteSchema_def prefixOf_def)
      with nw writeAll_only_writes [OF w] show ?thesis
        by (intro exI [of _ "StepCompile # checks"] exI [of _ writes]) simp
    qed
  qed
qed

lemma WriteSchema_compile_error:
  assumes "newNamespaceManager env ds = None"
    and "compile env schemaString (prefixOf prefixRequired) = Inl err"
  shows "WriteSchema env prefixRequired ds schemaString = (Inl (rewriteError err), ds, [StepCompile])"
  using assms by (simp add: WriteSchema_def prefixOf_def)

lemma WriteSchema_check_error:
  assumes "newNamespaceManager env ds = None"
    and "compile env schemaString (prefixOf prefixRequired) = Inr nsdefs"
    and "firstError (concat (map (checksOf env ds nsdefs) nsdefs)) = Some err"
  shows "WriteSchema env prefixRequired ds schemaString =
           (Inl (rewriteError err), ds, StepCompile # snd (validateAll env ds nsdefs nsdefs))"
proof -
  obtain v checks where v: "validateAll env ds nsdefs nsdefs = (v, checks)"
    by (cases "validateAll env ds nsdefs nsdefs")
  with validateAll_firstError [of env ds nsdefs nsdefs] assms(3) have "v = Some err" by simp
  with assms(1,2) v show ?thesis by (simp add: WriteSchema_def prefixOf_def)
qed

lemma WriteSchema_checks_core:
  assumes "newNamespaceManager env ds = None"
  shows "(compile env schemaString (prefixOf prefixRequired) = Inl err \<longrightarrow>
            WriteSchema env prefixRequired ds schemaString
              = (Inl (rewriteError err), ds, [StepCompile]))
     \<and> (compile env schemaString (prefixOf prefixRequired) = Inr nsdefs
          \<and> (\<exists>nsdef\<in>set nsdefs. \<exists>check\<in>set (checksOf env ds nsdefs nsdef). check \<noteq> None) \<longrightarrow>
            (\<exists>err'. firstError (concat (map (checksOf env ds nsdefs) nsdefs)) = Some err'
               \<and> fst (WriteSchema env prefixRequired ds schemaString) = Inl (rewriteError err'))
            \<and> fst (snd (WriteSchema env prefixRequired ds schemaString)) = ds
            \<and> \<not> list_ex isWrite (snd (snd (WriteSchema env prefixRequired ds schemaString))))
     \<and> (\<exists>checks writes.
            snd (snd (WriteSchema env prefixRequired ds schemaString)) = checks @ writes
            \<and> \<not> list_ex isWrite checks \<and> list_all isWrite writes)"
proof (intro conjI impI)
  assume "compile env schemaString (prefixOf prefixRequired) = Inl err"
  from WriteSchema_compile_error [OF assms this]
  show "WriteSchema env prefixRequired ds schemaString = (Inl (rewriteError err), ds, [StepCompile])" .
next
  assume a: "compile env schemaString (prefixOf prefixRequired) = Inr nsdefs
          \<and> (\<exists>nsdef\<in>set nsdefs. \<exists>check\<in>set (checksOf env ds nsdefs nsdef). check \<noteq> None)"
  then have "firstError (concat (map (checksOf env ds nsdefs) nsdefs)) \<noteq> None"
    unfolding firstError_None by auto
  then obtain err' where e: "firstError (concat (map (checksOf env ds nsdefs) nsdefs)) = Some err'"
    by blast
  note ws = WriteSchema_check_error [OF assms conjunct1 [OF a] e]
  show "\<exists>err'. firstError (concat (map (checksOf env ds nsdefs) nsdefs)) = Some err'
               \<and> fst (WriteSchema env prefixRequired ds schemaString) = Inl (rewriteError err')"
    using e ws by simp
  show "fst (snd (WriteSchema env prefixRequired ds schemaString)) = ds"
    using ws by simp
  show "\<not> list_ex isWrite (snd (snd (WriteSchema env prefixRequired ds schemaString)))"
    using ws validateAll_no_write [of env ds nsdefs nsdefs] by simp
next
  obtain r dsEnd steps where w: "WriteSchema env prefixRequired ds schemaString = (r, dsEnd, steps)"
    by (cases "WriteSchema env prefixRequired ds schemaString")
  from WriteSchema_steps [OF w] w
  show "\<exists>checks writes.
            snd (snd (WriteSchema env prefixRequired ds schemaString)) = checks @ writes
            \<and> \<not> list_ex isWrite checks \<and> list_all isWrite writes"
    by simp
qed

text \<open>
  C3. If the compilation fails, or it succeeds and the type system, the validation or the
  sanity check of any definition of the batch fails, then \<open>WriteSchema\<close> returns an error,
  the datastore is unchanged and \<open>WriteNamespace\<close> is never called. The error is the one of
  the step that failed first, rewritten: the compilation error, or the first failing
  check in the order of the batch (the namespace manager having been set up, without
  which nothing is compiled at all). In every run the steps split into a first part
  without any \<open>WriteNamespace\<close> call and a second part with nothing else: compiling,
  validating and checking end before the first write.
\<close>

theorem WriteSchema_checks_before_writes:
  "((compile env schemaString (prefixOf prefixRequired) = Inl err
      \<or> (compile env schemaString (prefixOf prefixRequired) = Inr nsdefs
          \<and> (\<exists>nsdef\<in>set nsdefs. \<exists>check\<in>set (checksOf env ds nsdefs nsdef). check \<noteq> None))) \<longrightarrow>
        (\<exists>e. fst (WriteSchema env prefixRequired ds schemaString) = Inl e)
        \<and> fst (snd (WriteSchema env prefixRequired ds schemaString)) = ds
        \<and> \<not> list_ex isWrite (snd (snd (WriteSchema env prefixRequired ds schemaString))))
   \<and> (newNamespaceManager env ds = None
        \<and> compile env schemaString (prefixOf prefixRequired) = Inl err \<longrightarrow>
          WriteSchema env prefixRequired ds schemaString
            = (Inl (rewriteError err), ds, [StepCompile]))
   \<and> (newNamespaceManager env ds = None
        \<and> compile env schemaString (prefixOf prefixRequired) = Inr nsdefs
        \<and> (\<exists>nsdef\<in>set nsdefs. \<exists>check\<in>set (checksOf env ds nsdefs nsdef). check \<noteq> None) \<longrightarrow>
          (\<exists>err'. firstError (concat (map (checksOf env ds nsdefs) nsdefs)) = Some err'
             \<and> fst (WriteSchema env prefixRequired ds schemaString) = Inl (rewriteError err')))
   \<and> (\<exists>checks writes.
          snd (snd (WriteSchema env prefixRequired ds schemaString)) = checks @ writes
          \<and> \<not> list_ex isWrite checks \<and> list_all isWrite writes)"
proof (cases "newNamespaceManager env ds")
  case (Some e)
  then have ws: "WriteSchema env prefixRequired ds schemaString = (Inl (rewriteError e), ds, [])"
    by (simp add: WriteSchema_def)
  have "\<exists>checks writes. snd (snd (WriteSchema env prefixRequired ds schemaString)) = checks @ writes
          \<and> \<not> list_ex isWrite checks \<and> list_all isWrite writes"
    unfolding ws by simp
  with Some ws show ?thesis by simp
next
  case None
  note core = WriteSchema_checks_core [OF None, of schemaString prefixRequired err nsdefs]
  from core have c1: "compile env schemaString (prefixOf prefixRequired) = Inl err \<Longrightarrow>
      WriteSchema env prefixRequired ds schemaString = (Inl (rewriteError err), ds, [StepCompile])"
    by blast
  from core have c2: "compile env schemaString (prefixOf prefixRequired) = Inr nsdefs
          \<and> (\<exists>nsdef\<in>set nsdefs. \<exists>check\<in>set (checksOf env ds nsdefs nsdef). check \<noteq> None) \<Longrightarrow>
      (\<exists>err'. firstError (concat (map (checksOf env ds nsdefs) nsdefs)) = Some err'
               \<and> fst (WriteSchema env prefixRequired ds schemaString) = Inl (rewriteError err'))
      \<and> fst (snd (WriteSchema env prefixRequired ds schemaString)) = ds
      \<and> \<not> list_ex isWrite (snd (snd (WriteSchema env prefixRequired ds schemaString)))"
    by blast
  from core have c3: "\<exists>checks writes.
          snd (snd (WriteSchema env prefixRequired ds schemaString)) = checks @ writes
          \<and> \<not> list_ex isWrite checks \<and> list_all isWrite writes"
    by blast
  have a: "(\<exists>e. fst (WriteSchema env prefixRequired ds schemaString) = Inl e)
        \<and> fst (snd (WriteSchema env prefixRequired ds schemaString)) = ds
        \<and> \<not> list_ex isWrite (snd (snd (WriteSchema env prefixRequired ds schemaString)))"
    if "compile env schemaString (prefixOf prefixRequired) = Inl err
      \<or> (compile env schemaString (prefixOf prefixRequired) = Inr nsdefs
          \<and> (\<exists>nsdef\<in>set nsdefs. \<exists>check\<in>set (checksOf env ds nsdefs nsdef). check \<noteq> None))"
    using that
  proof
    assume "compile env schemaString (prefixOf prefixRequired) = Inl err"
    from c1 [OF this] show ?thesis by simp
  next
    assume "compile env schemaString (prefixOf prefixRequired) = Inr nsdefs
          \<and> (\<exists>nsdef\<in>set nsdefs. \<exists>check\<in>set (checksOf env ds nsdefs nsdef). check \<noteq> None)"
    from c2 [OF this] show ?thesis by blast
  qed
  show ?thesis
  proof (intro conjI impI)
    assume h: "compile env schemaString (prefixOf prefixRequired) = Inl err
      \<or> (compile env schemaString (prefixOf prefixRequired) = Inr nsdefs
          \<and> (\<exists>nsdef\<in>set nsdefs. \<exists>check\<in>set (checksOf env ds nsdefs nsdef). check \<noteq> None))"
    from a [OF h] show "\<exists>e. fst (WriteSchema env prefixRequired ds schemaString) = Inl e"
      and "fst (snd (WriteSchema env prefixRequired ds schemaString)) = ds"
      and "\<not> list_ex isWrite (snd (snd (WriteSchema env prefixRequired ds schemaString)))"
      by blast+
  next
    assume "newNamespaceManager env ds = None
        \<and> compile env schemaString (prefixOf prefixRequired) = Inl err"
    then show "WriteSchema env prefixRequired ds schemaString
            = (Inl (rewriteError err), ds, [StepCompile])"
      using c1 by blast
  next
    assume "newNamespaceManager env ds = None
        \<and> compile env schemaString (prefixOf prefixRequired) = Inr nsdefs
        \<and> (\<exists>nsdef\<in>set nsdefs. \<exists>check\<in>set (checksOf env ds nsdefs nsdef). check \<noteq> None)"
    then show "\<exists>err'. firstError (concat (map (checksOf env ds nsdefs) nsdefs)) = Some err'
             \<and> fst (WriteSchema env prefixRequired ds schemaString) = Inl (rewriteError err')"
      using c2 by blast
  next
    show "\<exists>checks writes.
          snd (snd (WriteSchema env prefixRequired ds schemaString)) = checks @ writes
          \<and> \<not> list_ex isWrite checks \<and> list_all isWrite writes"
      by (fact c3)
  qed
qed

theorem WriteSchema_checks_before_writes_witness:
  "newNamespaceManager (twoDefinitions\<lparr>sanityCheck := viewerInUse\<rparr>) [(''document'',
       \<lparr>Name = ''document'', NamespaceRelations = [''viewer'']\<rparr>)] = None
   \<and> WriteSchema (twoDefinitions\<lparr>sanityCheck := viewerInUse\<rparr>) PrefixNotRequired
        [(''document'', \<lparr>Name = ''document'', NamespaceRelations = [''viewer'']\<rparr>)]
        ''definition document {} definition folder {}''
     = (Inl (StatusError InvalidArgument ''cannot delete relation `viewer`''),
        [(''document'', \<lparr>Name = ''document'', NamespaceRelations = [''viewer'']\<rparr>)],
        [StepCompile,
         StepBuildTypeSystem ''document'', StepValidate ''document'', StepSanityCheck ''document''])
   \<and> \<not> list_ex isWrite (snd (snd (WriteSchema (twoDefinitions\<lparr>sanityCheck := viewerInUse\<rparr>)
        PrefixNotRequired
        [(''document'', \<lparr>Name = ''document'', NamespaceRelations = [''viewer'']\<rparr>)]
        ''definition document {} definition folder {}'')))"
proof -
  let ?s = "''definition document {} definition folder {}''"
  let ?env = "twoDefinitions\<lparr>sanityCheck := viewerInUse\<rparr>"
  let ?ds = "[(''document'', \<lparr>Name = ''document'', NamespaceRelations = [''viewer'']\<rparr>)]"
  have m: "newNamespaceManager ?env ?ds = None"
    by (simp add: twoDefinitions_def)
  have c: "compile ?env ?s (prefixOf PrefixNotRequired) = Inr [documentDef, folderDef]"
    by (simp add: twoDefinitions_def)
  have bad: "\<exists>nsdef\<in>set [documentDef, folderDef].
               \<exists>check\<in>set (checksOf ?env ?ds [documentDef, folderDef] nsdef). check \<noteq> None"
    by (simp add: checksOf_def twoDefinitions_def viewerInUse_def documentDef_def)
  have v: "WriteSchema ?env PrefixNotRequired ?ds ?s
     = (Inl (StatusError InvalidArgument ''cannot delete relation `viewer`''), ?ds,
        [StepCompile,
         StepBuildTypeSystem ''document'', StepValidate ''document'', StepSanityCheck ''document''])"
    by (simp add: WriteSchema_def twoDefinitions_def viewerInUse_def documentDef_def folderDef_def
        rewriteError_def)
  from WriteSchema_checks_before_writes [of ?env ?s PrefixNotRequired _ "[documentDef, folderDef]" ?ds,
      THEN conjunct1, rule_format, OF disjI2, OF conjI [OF c bad]] m v
  show ?thesis by simp
qed

text \<open>
  C2, as amended. After a successful compilation and successful checks, \<open>WriteSchema\<close>
  stores the definitions one \<open>WriteNamespace\<close> call after the other, in the order of the
  batch. If every call succeeds, all definitions are stored and their names returned. If
  a call fails, its error (rewritten) is returned and the datastore is left with the
  definitions written before the failing one.
\<close>

theorem WriteSchema_writes_one_by_one:
  assumes "newNamespaceManager env ds = None"
    and "compile env schemaString (prefixOf prefixRequired) = Inr nsdefs"
    and "firstError (concat (map (checksOf env ds nsdefs) nsdefs)) = None"
  shows "(writesOf env ds nsdefs = Inr dsEnd \<longrightarrow>
            fst (WriteSchema env prefixRequired ds schemaString) = Inr (map Name nsdefs)
            \<and> fst (snd (WriteSchema env prefixRequired ds schemaString)) = dsEnd)
     \<and> (nsdefs = written @ nsdef # rest \<and> writesOf env ds written = Inr ds1
          \<and> writeNamespace env ds1 nsdef = Inl err \<longrightarrow>
            fst (WriteSchema env prefixRequired ds schemaString) = Inl (rewriteError err)
            \<and> fst (snd (WriteSchema env prefixRequired ds schemaString)) = ds1)"
proof -
  obtain v checks where v: "validateAll env ds nsdefs nsdefs = (v, checks)"
    by (cases "validateAll env ds nsdefs nsdefs")
  with validateAll_firstError [of env ds nsdefs nsdefs] assms(3) have vn: "v = None" by simp
  have ws: "WriteSchema env prefixRequired ds schemaString =
      (case writeAll env ds nsdefs [] of (r, ds', writes) \<Rightarrow> (r, ds', StepCompile # checks @ writes))"
    using assms(1,2) v vn by (simp add: WriteSchema_def prefixOf_def)
  show ?thesis
    unfolding ws
    by (auto simp: writeAll_success writeAll_failure)
qed

theorem WriteSchema_writes_one_by_one_witness:
  "fst (WriteSchema twoDefinitions PrefixNotRequired [] ''definition document {} definition folder {}'')
     = Inr [''document'', ''folder'']
   \<and> fst (snd (WriteSchema twoDefinitions PrefixNotRequired []
         ''definition document {} definition folder {}''))
     = [(''document'', documentDef), (''folder'', folderDef)]
   \<and> fst (WriteSchema (twoDefinitions\<lparr>writeNamespace := failingFolderWrite\<rparr>) PrefixNotRequired []
         ''definition document {} definition folder {}'')
     = Inl (OtherError ''connection reset'')
   \<and> fst (snd (WriteSchema (twoDefinitions\<lparr>writeNamespace := failingFolderWrite\<rparr>)
         PrefixNotRequired [] ''definition document {} definition folder {}''))
     = [(''document'', documentDef)]"
proof -
  let ?s = "''definition document {} definition folder {}''"
  let ?bad = "twoDefinitions\<lparr>writeNamespace := failingFolderWrite\<rparr>"
  have m: "newNamespaceManager twoDefinitions [] = None" "newNamespaceManager ?bad [] = None"
    by (simp_all add: twoDefinitions_def)
  have c: "compile twoDefinitions ?s (prefixOf PrefixNotRequired) = Inr [documentDef, folderDef]"
    "compile ?bad ?s (prefixOf PrefixNotRequired) = Inr [documentDef, folderDef]"
    by (simp_all add: twoDefinitions_def)
  have f: "firstError (concat (map (checksOf twoDefinitions [] [documentDef, folderDef])
             [documentDef, folderDef])) = None"
    "firstError (concat (map (checksOf ?bad [] [documentDef, folderDef])
             [documentDef, folderDef])) = None"
    by (simp_all add: twoDefinitions_def checksOf_def)
  have w1: "writesOf twoDefinitions [] [documentDef, folderDef]
            = Inr [(''document'', documentDef), (''folder'', folderDef)]"
    by (simp add: twoDefinitions_def storeNamespace_def documentDef_def folderDef_def)
  have w2: "[documentDef, folderDef] = [documentDef] @ folderDef # []"
    "writesOf ?bad [] [documentDef] = Inr [(''document'', documentDef)]"
    "writeNamespace ?bad [(''document'', documentDef)] folderDef = Inl (OtherError ''connection reset'')"
    by (simp_all add: twoDefinitions_def failingFolderWrite_def storeNamespace_def
        documentDef_def folderDef_def)
  have r: "rewriteError (OtherError ''connection reset'') = OtherError ''connection reset''"
    by (simp add: rewriteError_def)
  have n: "map Name [documentDef, folderDef] = [''document'', ''folder'']"
    by (simp add: documentDef_def folderDef_def)
  have A: "fst (WriteSchema twoDefinitions PrefixNotRequired [] ?s) = Inr (map Name [documentDef, folderDef])
      \<and> fst (snd (WriteSchema twoDefinitions PrefixNotRequired [] ?s))
          = [(''document'', documentDef), (''folder'', folderDef)]"
    using WriteSchema_writes_one_by_one [OF m(1) c(1) f(1),
        where dsEnd = "[(''document'', documentDef), (''folder'', folderDef)]"] w1
    by blast
  have B: "fst (WriteSchema ?bad PrefixNotRequired [] ?s) = Inl (rewriteError (OtherError ''connection reset''))
      \<and> fst (snd (WriteSchema ?bad PrefixNotRequired [] ?s)) = [(''document'', documentDef)]"
    using WriteSchema_writes_one_by_one [OF m(2) c(2) f(2),
        where written = "[documentDef]" and nsdef = folderDef and rest = "[]"
          and ?ds1.0 = "[(''document'', documentDef)]" and err = "OtherError ''connection reset''"]
      w2
    by blast
  show ?thesis
    using A B unfolding n r by blast
qed

text \<open>
  C2 as stated fails: the writes are separate calls with nothing around them. With a
  datastore whose write of the second definition fails, \<open>WriteSchema\<close> returns the error and
  leaves the first definition stored.
\<close>

theorem WriteSchema_not_atomic_counterexample:
  "WriteSchema (twoDefinitions\<lparr>writeNamespace := failingFolderWrite\<rparr>) PrefixNotRequired []
       ''definition document {} definition folder {}''
     = (Inl (OtherError ''connection reset''),
        [(''document'', documentDef)],
        [StepCompile,
         StepBuildTypeSystem ''document'', StepValidate ''document'', StepSanityCheck ''document'',
         StepBuildTypeSystem ''folder'', StepValidate ''folder'', StepSanityCheck ''folder'',
         StepWriteNamespace ''document'', StepWriteNamespace ''folder''])"
  by (simp add: WriteSchema_def twoDefinitions_def failingFolderWrite_def storeNamespace_def
      documentDef_def folderDef_def rewriteError_def)

end
